theory Spec2Isabelle
  imports Complex_Main "HOL-Library.AList" "HOL-Library.Multiset"
begin

section \<open>PathFinder+ : conventions\<close>

text \<open>
  The development follows \<^verbatim>\<open>PathFinder_plus.py\<close>. Python integers are \<^typ>\<open>int\<close>,
  Python strings are \<^typ>\<open>string\<close>, a dictionary is a map or, where its insertion order
  is read back, an association list (looked up with \<^const>\<open>map_of\<close>, stored with
  \<^const>\<open>AList.update\<close>), and an exception that leaves a function is the \<open>Inl\<close> branch
  of its result.
\<close>

section \<open>Logic parser: \<^verbatim>\<open>parse_mission\<close> and \<^verbatim>\<open>deconstruct\<close>\<close>

text \<open>The exceptions the modelled functions raise.\<close>

datatype pyerr = KeyError | IndexError | ValueError | ZeroDivisionError | TypeError | OverflowError

text \<open>\<^verbatim>\<open>str.split(sep)\<close> for a one-character separator: every occurrence cuts, and the
  result always has at least one piece.\<close>

fun split_on :: "char \<Rightarrow> string \<Rightarrow> string list" where
  "split_on c [] = [[]]"
| "split_on c (x # xs) =
     (if x = c then [] # split_on c xs
      else (x # hd (split_on c xs)) # tl (split_on c xs))"

text \<open>\<^verbatim>\<open>sep.join(parts)\<close>, used to write a group of identifiers with one operator.\<close>

fun join_with :: "char \<Rightarrow> string list \<Rightarrow> string" where
  "join_with c [] = []"
| "join_with c [w] = w"
| "join_with c (w # v # ws) = w @ c # join_with c (v # ws)"

text \<open>\<^verbatim>\<open>itertools.permutations(actions)\<close>: all orderings of the positions of the list, in
  lexicographic order of the positions.\<close>

function permutations :: "'a list \<Rightarrow> 'a list list" where
  "permutations xs =
     (if xs = [] then [[]]
      else concat (map (\<lambda>i. map ((#) (xs ! i)) (permutations (take i xs @ drop (Suc i) xs)))
                       [0..<length xs]))"
  by pat_completeness auto
termination
  by (relation "measure length") auto

declare permutations.simps [simp del]

text \<open>The body of the \<open>+\<close> and \<open>_\<close> loops of \<^verbatim>\<open>parse_mission\<close>: \<^verbatim>\<open>node[-1]\<close>
  raises on an empty operand; an operand that does not end in a colon gets one.\<close>

definition add_colon :: "string \<Rightarrow> pyerr + string" where
  "add_colon node =
     (if node = [] then Inl IndexError
      else if last node = CHR '':'' then Inr node
      else Inr (node @ '':''))"

text \<open>The \<open>,\<close> loop appends \<^verbatim>\<open>step + ":"\<close> in both branches of its test.\<close>

definition add_colon_or :: "string \<Rightarrow> pyerr + string" where
  "add_colon_or step =
     (if step = [] then Inl IndexError
      else if last step = CHR '':'' then Inr (step @ '':'')
      else Inr (step @ '':''))"

text \<open>Concatenating the pieces of one ordering, stopping at the first exception.\<close>

fun concat_err :: "(string \<Rightarrow> pyerr + string) \<Rightarrow> string list \<Rightarrow> pyerr + string" where
  "concat_err f [] = Inr []"
| "concat_err f (n # ns) =
     (case f n of Inl e \<Rightarrow> Inl e
      | Inr s \<Rightarrow> (case concat_err f ns of Inl e \<Rightarrow> Inl e | Inr r \<Rightarrow> Inr (s @ r)))"

text \<open>A list comprehension whose body may raise.\<close>

fun map_err :: "('a \<Rightarrow> pyerr + 'b) \<Rightarrow> 'a list \<Rightarrow> pyerr + 'b list" where
  "map_err f [] = Inr []"
| "map_err f (x # xs) =
     (case f x of Inl e \<Rightarrow> Inl e
      | Inr y \<Rightarrow> (case map_err f xs of Inl e \<Rightarrow> Inl e | Inr ys \<Rightarrow> Inr (y # ys)))"

text \<open>\<^verbatim>\<open>parse_mission(mission_fragment)\<close>. In the \<open>+\<close> branch the list of orderings is
  appended to \<^verbatim>\<open>path_strings\<close> as one element and the closing \<^verbatim>\<open>while listdepth(..) > 1\<close>
  loop flattens it once, so the result is the list of orderings itself; in the other
  branches \<^verbatim>\<open>path_strings\<close> is already a flat list of strings. \<^verbatim>\<open>deconstruct\<close> calls it
  with the text between the innermost pair of parentheses.\<close>

definition parse_mission :: "string \<Rightarrow> pyerr + string list" where
  "parse_mission mission_fragment =
     (if CHR ''+'' \<in> set mission_fragment then
        map_err (concat_err add_colon) (permutations (split_on CHR ''+'' mission_fragment))
      else if CHR ''_'' \<in> set mission_fragment then
        (case concat_err add_colon (split_on CHR ''_'' mission_fragment) of
           Inl e \<Rightarrow> Inl e | Inr mystring \<Rightarrow> Inr [mystring])
      else if CHR '','' \<in> set mission_fragment then
        map_err add_colon_or (split_on CHR '','' mission_fragment)
      else Inr [mission_fragment])"

text \<open>The constraint on leaf identifiers: a node name is not empty and has none of the
  characters the logic syntax and the mission strings use.\<close>

definition node_name_ok :: "string \<Rightarrow> bool" where
  "node_name_ok n \<longleftrightarrow> n \<noteq> [] \<and> set n \<inter> set ''+_,():'' = {}"

text \<open>A waypoint sequence as the parser writes it: every waypoint followed by a colon.\<close>

definition mission_string :: "string list \<Rightarrow> string" where
  "mission_string p = concat (map (\<lambda>n. n @ '':'') p)"

text \<open>The loop of \<^verbatim>\<open>paren_depth(line)\<close>: the running depth goes up at an opening
  parenthesis, down at a closing one, and the maximum is updated after each character.\<close>

fun paren_scan :: "string \<Rightarrow> int \<Rightarrow> int \<Rightarrow> int" where
  "paren_scan [] n_depth max_depth = max_depth"
| "paren_scan (ch # r) n_depth max_depth =
     (let n1 = (if ch = CHR ''('' then n_depth + 1 else n_depth);
          n2 = (if ch = CHR '')'' then n1 - 1 else n1)
      in paren_scan r n2 (if n2 > max_depth then n2 else max_depth))"

text \<open>\<^verbatim>\<open>paren_depth(line)\<close>.\<close>

definition paren_depth :: "string \<Rightarrow> int" where
  "paren_depth line = paren_scan line 0 0"

text \<open>The \<^verbatim>\<open>for j in range(len(mission))\<close> scan of \<^verbatim>\<open>deconstruct\<close>: the position of
  the first opening parenthesis that brings the running depth to \<^verbatim>\<open>max_depth\<close>, if any.\<close>

fun find_group :: "int \<Rightarrow> string \<Rightarrow> nat \<Rightarrow> int \<Rightarrow> nat option" where
  "find_group max_depth [] j n_depth = None"
| "find_group max_depth (ch # r) j n_depth =
     (if ch = CHR ''('' then
        (if n_depth + 1 = max_depth then Some j
         else find_group max_depth r (Suc j) (n_depth + 1))
      else if ch = CHR '')'' then find_group max_depth r (Suc j) (n_depth - 1)
      else find_group max_depth r (Suc j) n_depth)"

text \<open>\<^verbatim>\<open>new_string.replace("::", ":")\<close>: occurrences are replaced from the left without
  overlap.\<close>

fun replace_colons :: "string \<Rightarrow> string" where
  "replace_colons (a # b # r) =
     (if a = CHR '':'' \<and> b = CHR '':'' then CHR '':'' # replace_colons r
      else a # replace_colons (b # r))"
| "replace_colons r = r"

text \<open>The body run at the opening parenthesis found at position \<open>j\<close>: the text up to
  the next closing parenthesis is parsed, and each result is put back between what stood
  before and after the group. When no closing parenthesis follows, \<^verbatim>\<open>find\<close> returns
  \<open>-1\<close> and the slices \<^verbatim>\<open>[r_paren + 1:]\<close> and \<^verbatim>\<open>[:r_paren]\<close> are the whole rest and the rest
  without its last character.\<close>

definition expand_group :: "string \<Rightarrow> nat \<Rightarrow> pyerr + string list" where
  "expand_group mission j =
     (let pre_mission = take j mission;
          rest = drop (Suc j) mission;
          post_mission = (if CHR '')'' \<in> set rest
                          then tl (dropWhile (\<lambda>ch. ch \<noteq> CHR '')'') rest) else rest);
          mission_fragment = (if CHR '')'' \<in> set rest
                              then takeWhile (\<lambda>ch. ch \<noteq> CHR '')'') rest else butlast rest)
      in case parse_mission mission_fragment of
           Inl e \<Rightarrow> Inl e
         | Inr new_missions \<Rightarrow>
             Inr (map (\<lambda>item. replace_colons (pre_mission @ item @ post_mission)) new_missions))"

text \<open>The outer \<^verbatim>\<open>while len(to_process) > 0\<close> loop of \<^verbatim>\<open>deconstruct\<close>. The inner
  \<^verbatim>\<open>while current_depth == max_depth\<close> runs its body once: it drops the head of the queue
  and leaves \<^verbatim>\<open>current_depth\<close> below \<^verbatim>\<open>max_depth\<close>. A line without parentheses gets its
  closing colon (\<^verbatim>\<open>mission[-1]\<close> raises on the empty string) and is saved; the scan then
  reads the line so completed. The loop has no bound in the source, so not returning is
  the value \<open>None\<close>.\<close>

partial_function (option) deconstruct_loop :: "string list \<Rightarrow> string list \<Rightarrow> (pyerr + string list) option" where
  "deconstruct_loop to_process processed =
     (if to_process = [] then Some (Inr processed)
      else if length to_process = 1 \<and> hd to_process = [] then Some (Inr processed)
      else
       (let max_depth = paren_depth (hd to_process)
        in if max_depth = 0 \<and> hd to_process = [] then Some (Inl IndexError)
           else
            (let mission = (if max_depth = 0 \<and> last (hd to_process) \<noteq> CHR '':''
                            then hd to_process @ '':'' else hd to_process);
                 processed' = (if max_depth = 0 then processed @ [mission] else processed)
             in case find_group max_depth mission 0 0 of
                  None \<Rightarrow> deconstruct_loop (tl to_process) processed'
                | Some j \<Rightarrow>
                    (case expand_group mission j of
                       Inl e \<Rightarrow> Some (Inl e)
                     | Inr new_strings \<Rightarrow>
                         deconstruct_loop (tl (to_process @ new_strings)) processed'))))"

text \<open>\<^verbatim>\<open>deconstruct(line)\<close>: the queue starts with the line alone. The writes to the log
  file are left out.\<close>

definition deconstruct :: "string \<Rightarrow> (pyerr + string list) option" where
  "deconstruct line = deconstruct_loop [line] []"

text \<open>A string without parentheses.\<close>

definition paren_free :: "string \<Rightarrow> bool" where
  "paren_free m \<longleftrightarrow> CHR ''('' \<notin> set m \<and> CHR '')'' \<notin> set m"

text \<open>The closing colon \<^verbatim>\<open>deconstruct\<close> gives to a line it saves.\<close>

definition close_mission :: "string \<Rightarrow> string" where
  "close_mission m = (if last m \<noteq> CHR '':'' then m @ '':'' else m)"

text \<open>A string in which no two colons are adjacent.\<close>

fun no_double_colon :: "string \<Rightarrow> bool" where
  "no_double_colon (a # b # r) = (\<not> (a = CHR '':'' \<and> b = CHR '':'') \<and> no_double_colon (b # r))"
| "no_double_colon r = True"

subsection \<open>Properties of the parser\<close>

lemma split_on_ne: "split_on c s \<noteq> []"
  by (induction s) auto

lemma split_on_no_sep: "c \<notin> set w \<Longrightarrow> split_on c w = [w]"
  by (induction w) auto

lemma split_on_app: "c \<notin> set w \<Longrightarrow> split_on c (w @ c # r) = w # split_on c r"
  by (induction w) auto

lemma split_join:
  "ids \<noteq> [] \<Longrightarrow> \<forall>n\<in>set ids. c \<notin> set n \<Longrightarrow> split_on c (join_with c ids) = ids"
  by (induction c ids rule: join_with.induct) (auto simp: split_on_no_sep split_on_app)

lemma set_join_with:
  "set (join_with c ids) = (if 2 \<le> length ids then {c} else {}) \<union> (\<Union>n\<in>set ids. set n)"
  by (induction c ids rule: join_with.induct) auto

lemma length_permutations: "length (permutations xs) = fact (length xs)"
proof (induction xs rule: permutations.induct)
  case (1 xs)
  show ?case
  proof (cases "xs = []")
    case True
    then show ?thesis by (simp add: permutations.simps)
  next
    case False
    have "\<And>i. i < length xs \<Longrightarrow> length (permutations (take i xs @ drop (Suc i) xs)) = fact (length xs - 1)"
      using 1 False by (auto simp: min_def)
    then have "length (permutations xs) = (\<Sum>i\<leftarrow>[0..<length xs]. fact (length xs - 1))"
      using False by (subst permutations.simps) (auto simp: length_concat comp_def intro!: arg_cong[where f=sum_list] map_cong)
    also have "\<dots> = length xs * fact (length xs - 1)"
      by (simp add: sum_list_triv)
    also have "\<dots> = fact (length xs)"
      using False by (cases xs) auto
    finally show ?thesis .
  qed
qed

lemma set_permutations: "set (permutations xs) = {ys. mset ys = mset xs}"
proof (induction xs rule: permutations.induct)
  case (1 xs)
  show ?case
  proof (cases "xs = []")
    case True
    then show ?thesis by (simp add: permutations.simps)
  next
    case False
    have rest: "mset (take i xs @ drop (Suc i) xs) + {#xs ! i#} = mset xs" if "i < length xs" for i
    proof -
      have "mset xs = mset (take i xs @ xs ! i # drop (Suc i) xs)"
        using id_take_nth_drop[OF that] by simp
      then show ?thesis by simp
    qed
    have IH: "set (permutations (take i xs @ drop (Suc i) xs)) = {ys. mset ys = mset (take i xs @ drop (Suc i) xs)}"
      if "i < length xs" for i
      using 1 False that by simp
    have eq: "set (permutations xs) = (\<Union>i\<in>{0..<length xs}. (#) (xs ! i) ` set (permutations (take i xs @ drop (Suc i) xs)))"
      using False by (subst permutations.simps) auto
    show ?thesis
    proof (intro set_eqI iffI)
      fix ys assume "ys \<in> set (permutations xs)"
      then obtain i zs where i: "i < length xs" and zs: "zs \<in> set (permutations (take i xs @ drop (Suc i) xs))"
        and ys: "ys = xs ! i # zs"
        unfolding eq by auto
      from zs IH[OF i] have "mset zs = mset (take i xs @ drop (Suc i) xs)" by simp
      with rest[OF i] ys show "ys \<in> {ys. mset ys = mset xs}" by simp
    next
      fix ys assume "ys \<in> {ys. mset ys = mset xs}"
      then have m: "mset ys = mset xs" by simp
      with False obtain y zs where ys: "ys = y # zs" by (cases ys) auto
      from m ys have "y \<in> set xs" by (metis list.set_intros(1) mset_eq_setD)
      then obtain i where i: "i < length xs" and y: "xs ! i = y" by (auto simp: in_set_conv_nth)
      from m ys rest[OF i] y have "mset zs = mset (take i xs @ drop (Suc i) xs)"
        by (metis add_mset_add_single add_mset_remove_trivial mset.simps(2))
      with IH[OF i] have "zs \<in> set (permutations (take i xs @ drop (Suc i) xs))" by simp
      with i y ys show "ys \<in> set (permutations xs)" unfolding eq by auto
    qed
  qed
qed

lemma map_err_all: "\<forall>x\<in>set xs. f x = Inr (g x) \<Longrightarrow> map_err f xs = Inr (map g xs)"
  by (induction xs) auto

lemma add_colon_ok: "node_name_ok n \<Longrightarrow> add_colon n = Inr (n @ '':'')"
  by (cases n rule: rev_cases) (auto simp: add_colon_def node_name_ok_def)

lemma add_colon_or_ok: "node_name_ok n \<Longrightarrow> add_colon_or n = Inr (n @ '':'')"
  by (auto simp: add_colon_or_def node_name_ok_def)

lemma concat_err_ok: "\<forall>n\<in>set p. node_name_ok n \<Longrightarrow> concat_err add_colon p = Inr (mission_string p)"
  by (induction p) (auto simp: mission_string_def add_colon_ok)

lemma join_chars:
  assumes "\<forall>n\<in>set ids. node_name_ok n" "c \<in> set ''+_,''"
  shows "c \<in> set (join_with d ids) \<longleftrightarrow> c = d \<and> 2 \<le> length ids"
  using assms unfolding set_join_with node_name_ok_def by auto

lemma join_single: "length ids = 1 \<Longrightarrow> join_with c ids = hd ids"
  by (cases ids) auto

lemma deconstruct_ordered: "deconstruct ''(A_B)'' = Some (Inr [''A:B:''])"
  by (simp add: deconstruct_def deconstruct_loop.simps paren_depth_def expand_group_def
      parse_mission_def add_colon_def Let_def)

lemma deconstruct_unordered: "deconstruct ''(A+B)'' = Some (Inr [''A:B:'', ''B:A:''])"
  by (simp add: deconstruct_def deconstruct_loop.simps paren_depth_def expand_group_def
      parse_mission_def add_colon_def Let_def permutations.simps upt_rec)

lemma deconstruct_or: "deconstruct ''(A,B)'' = Some (Inr [''A:'', ''B:''])"
  by (simp add: deconstruct_def deconstruct_loop.simps paren_depth_def expand_group_def
      parse_mission_def add_colon_or_def Let_def)

lemma paren_scan_free: "paren_free m \<Longrightarrow> paren_scan m n mx = mx \<or> paren_scan m n mx = n \<and> mx < n"
  by (induction m arbitrary: mx) (auto simp: paren_free_def Let_def)

lemma paren_depth_free: "paren_free m \<Longrightarrow> paren_depth m = 0"
  using paren_scan_free[of m 0 0] by (auto simp: paren_depth_def)

lemma find_group_free: "CHR ''('' \<notin> set m \<Longrightarrow> find_group mx m j n = None"
  by (induction m arbitrary: j n) auto

lemma paren_scan_level: "paren_free m \<Longrightarrow> n \<le> mx \<Longrightarrow> paren_scan m n mx = mx"
  by (induction m arbitrary: mx) (auto simp: paren_free_def Let_def)

lemma paren_depth_group:
  assumes "paren_free frag"
  shows "paren_depth (''('' @ frag @ '')'') = 1"
proof -
  have "paren_scan (frag @ '')'') 1 1 = 1"
    using assms
  proof (induction frag)
    case Nil
    then show ?case by simp
  next
    case (Cons a frag)
    then show ?case by (auto simp: paren_free_def Let_def)
  qed
  then show ?thesis by (simp add: paren_depth_def)
qed

lemma replace_colons_id: "no_double_colon s \<Longrightarrow> replace_colons s = s"
  by (induction s rule: replace_colons.induct) auto

lemma paren_free_close: "paren_free m \<Longrightarrow> paren_free (close_mission m)"
  by (auto simp: paren_free_def close_mission_def)

lemma flush_paren_free:
  "\<forall>m\<in>set tp. m \<noteq> [] \<and> paren_free m \<Longrightarrow>
   deconstruct_loop tp processed = Some (Inr (processed @ map close_mission tp))"
proof (induction tp arbitrary: processed)
  case Nil
  then show ?case by (simp add: deconstruct_loop.simps)
next
  case (Cons m tp)
  then have m: "m \<noteq> []" "paren_free m" by auto
  have d: "paren_depth m = 0" by (rule paren_depth_free[OF m(2)])
  have fg: "find_group 0 m 0 0 = None" "find_group 0 (m @ '':'') 0 0 = None"
    using m(2) by (simp_all add: find_group_free paren_free_def)
  have "deconstruct_loop (m # tp) processed = deconstruct_loop tp (processed @ [close_mission m])"
    using m d fg by (subst deconstruct_loop.simps) (simp add: Let_def close_mission_def)
  also have "\<dots> = Some (Inr ((processed @ [close_mission m]) @ map close_mission tp))"
    using Cons.prems by (intro Cons.IH) simp
  finally show ?case by simp
qed

lemma expand_group_whole:
  assumes "paren_free frag" "parse_mission frag = Inr items"
  shows "expand_group (''('' @ frag @ '')'') 0 = Inr (map replace_colons items)"
proof -
  have tw: "takeWhile (\<lambda>ch. ch \<noteq> CHR '')'') (frag @ '')'') = frag"
    using assms(1) by (induction frag) (auto simp: paren_free_def)
  have dw: "dropWhile (\<lambda>ch. ch \<noteq> CHR '')'') (frag @ '')'') = '')''"
    using assms(1) by (induction frag) (auto simp: paren_free_def)
  show ?thesis
    using assms(2) by (simp add: expand_group_def tw dw)
qed

lemma deconstruct_group:
  assumes "paren_free frag" "parse_mission frag = Inr items"
    and "\<forall>m\<in>set items. m \<noteq> [] \<and> paren_free m \<and> no_double_colon m"
  shows "deconstruct (''('' @ frag @ '')'') = Some (Inr (map close_mission items))"
proof -
  let ?line = "''('' @ frag @ '')''"
  have d: "paren_depth ?line = 1" by (rule paren_depth_group[OF assms(1)])
  have fg: "find_group 1 ?line 0 0 = Some 0" by simp
  have ri: "map replace_colons items = items"
    using assms(3) by (intro map_idI) (simp add: replace_colons_id)
  have ex: "expand_group ?line 0 = Inr items"
    using expand_group_whole[OF assms(1,2)] ri by simp
  have "deconstruct ?line = deconstruct_loop items []"
    unfolding deconstruct_def
    using d fg ex by (subst deconstruct_loop.simps) (simp add: Let_def)
  also have "\<dots> = Some (Inr ([] @ map close_mission items))"
    using assms(3) by (intro flush_paren_free) simp
  finally show ?thesis by simp
qed

lemma no_double_colon_plain: "CHR '':'' \<notin> set s \<Longrightarrow> no_double_colon s"
  by (induction s rule: no_double_colon.induct) auto

lemma no_double_colon_app:
  "no_double_colon r \<Longrightarrow> r = [] \<or> hd r \<noteq> CHR '':'' \<Longrightarrow> CHR '':'' \<notin> set n \<Longrightarrow> n \<noteq> []
   \<Longrightarrow> no_double_colon (n @ CHR '':'' # r)"
proof (induction n)
  case Nil
  then show ?case by simp
next
  case step: (Cons a n)
  show ?case
  proof (cases n)
    case Nil
    then show ?thesis using step.prems by (cases r) auto
  next
    case (Cons b n')
    then show ?thesis using step.IH step.prems by auto
  qed
qed

lemma mission_string_Cons: "mission_string (n # p) = n @ CHR '':'' # mission_string p"
  by (simp add: mission_string_def)

lemma mission_string_shape:
  assumes "\<forall>n\<in>set p. node_name_ok n"
  shows "no_double_colon (mission_string p) \<and> paren_free (mission_string p)
         \<and> (mission_string p = [] \<or> hd (mission_string p) \<noteq> CHR '':'')"
  using assms
proof (induction p)
  case Nil
  then show ?case by (simp add: mission_string_def paren_free_def)
next
  case (Cons n p)
  then have ih: "no_double_colon (mission_string p)" "paren_free (mission_string p)"
    "mission_string p = [] \<or> hd (mission_string p) \<noteq> CHR '':''" by auto
  from Cons.prems have n: "n \<noteq> []" "CHR '':'' \<notin> set n" "paren_free n"
    by (auto simp: node_name_ok_def paren_free_def)
  have "no_double_colon (mission_string (n # p))"
    unfolding mission_string_Cons by (rule no_double_colon_app[OF ih(1) ih(3) n(2) n(1)])
  moreover have "paren_free (mission_string (n # p))"
    using ih(2) n(3) by (auto simp: mission_string_Cons paren_free_def)
  moreover have "hd (mission_string (n # p)) \<noteq> CHR '':''"
    using n(1,2) by (cases n) (auto simp: mission_string_Cons)
  ultimately show ?case by simp
qed

lemma mission_string_closed:
  "p \<noteq> [] \<Longrightarrow> mission_string p \<noteq> [] \<and> close_mission (mission_string p) = mission_string p"
  by (cases p rule: rev_cases) (auto simp: mission_string_def close_mission_def)

lemma node_name_shape:
  assumes "node_name_ok n"
  shows "n \<noteq> [] \<and> paren_free n \<and> no_double_colon n \<and> close_mission n = mission_string [n]"
proof -
  from assms have n: "n \<noteq> []" "CHR '':'' \<notin> set n" "paren_free n"
    by (auto simp: node_name_ok_def paren_free_def)
  then have "last n \<noteq> CHR '':''" using last_in_set[of n] by metis
  then show ?thesis
    using n by (simp add: no_double_colon_plain close_mission_def mission_string_def)
qed

lemma permutations_single: "permutations [x] = [[x]]"
  by (simp add: permutations.simps upt_rec)

lemma join_paren_free:
  assumes "\<forall>n\<in>set ids. node_name_ok n" "c \<in> set ''+_,''"
  shows "paren_free (join_with c ids)"
  using assms unfolding paren_free_def set_join_with node_name_ok_def by auto

lemma parse_groups:
  assumes "ids \<noteq> []" and "\<forall>n\<in>set ids. node_name_ok n"
  shows "parse_mission (join_with CHR ''+'' ids)
           = Inr (if 2 \<le> length ids then map mission_string (permutations ids) else [hd ids])"
    and "parse_mission (join_with CHR ''_'' ids)
           = Inr (if 2 \<le> length ids then [mission_string ids] else [hd ids])"
    and "parse_mission (join_with CHR '','' ids)
           = Inr (if 2 \<le> length ids then map (\<lambda>n. n @ '':'') ids else [hd ids])"
proof -
  have nosep: "\<forall>n\<in>set ids. c \<notin> set n" if "c \<in> set ''+_,''" for c
    using assms(2) that unfolding node_name_ok_def by auto
  have perm_ok: "\<forall>p\<in>set (permutations ids). concat_err add_colon p = Inr (mission_string p)"
  proof
    fix p assume "p \<in> set (permutations ids)"
    then have "set p = set ids" unfolding set_permutations by (auto dest: mset_eq_setD)
    with assms(2) show "concat_err add_colon p = Inr (mission_string p)"
      by (intro concat_err_ok) simp
  qed
  have single: "parse_mission (join_with c ids) = Inr [hd ids]" if "\<not> 2 \<le> length ids" for c
  proof -
    from that assms(1) have one: "length ids = 1" by (cases ids) (auto simp: not_le)
    then have j: "join_with c ids = hd ids" by (rule join_single)
    from one assms have "node_name_ok (hd ids)" by (cases ids) auto
    then show ?thesis unfolding j by (auto simp: parse_mission_def node_name_ok_def)
  qed
  show "parse_mission (join_with CHR ''+'' ids)
           = Inr (if 2 \<le> length ids then map mission_string (permutations ids) else [hd ids])"
  proof (cases "2 \<le> length ids")
    case True
    then show ?thesis
      using assms perm_ok
      by (simp add: parse_mission_def join_chars split_join[OF assms(1) nosep] map_err_all)
  next
    case False
    then show ?thesis using single by simp
  qed
  show "parse_mission (join_with CHR ''_'' ids)
           = Inr (if 2 \<le> length ids then [mission_string ids] else [hd ids])"
  proof (cases "2 \<le> length ids")
    case True
    then show ?thesis
      using assms
      by (simp add: parse_mission_def join_chars split_join[OF assms(1) nosep] concat_err_ok)
  next
    case False
    then show ?thesis using single by simp
  qed
  show "parse_mission (join_with CHR '','' ids)
           = Inr (if 2 \<le> length ids then map (\<lambda>n. n @ '':'') ids else [hd ids])"
  proof (cases "2 \<le> length ids")
    case True
    then show ?thesis
      using assms
      by (simp add: parse_mission_def join_chars split_join[OF assms(1) nosep] map_err_all
          add_colon_or_ok)
  next
    case False
    then show ?thesis using single by simp
  qed
qed

lemma single_id:
  assumes "ids \<noteq> []" "\<not> 2 \<le> length ids"
  shows "ids = [hd ids]"
  using assms by (cases ids) (auto simp: not_le)

text \<open>Claim C6. For a parenthesized group of \<open>k \<ge> 1\<close> node identifiers \<^verbatim>\<open>deconstruct\<close>
  returns: when the identifiers are joined by \<open>+\<close>, the waypoint sequences of the
  orderings of the group, which are \<open>k!\<close> in number and are exactly the rearrangements
  of the group; when they are joined by \<open>_\<close>, the single sequence in the written
  order; when they are joined by \<open>,\<close>, one single-waypoint sequence for each
  identifier. For two identifiers or more \<^verbatim>\<open>parse_mission\<close> returns the same lists on
  the text between the parentheses.\<close>

theorem parse_mission_group:
  assumes "ids \<noteq> []" and "\<forall>n\<in>set ids. node_name_ok n"
  shows "deconstruct (''('' @ join_with CHR ''+'' ids @ '')'')
           = Some (Inr (map mission_string (permutations ids)))
       \<and> length (permutations ids) = fact (length ids)
       \<and> set (permutations ids) = {p. mset p = mset ids}
       \<and> deconstruct (''('' @ join_with CHR ''_'' ids @ '')'') = Some (Inr [mission_string ids])
       \<and> deconstruct (''('' @ join_with CHR '','' ids @ '')'')
           = Some (Inr (map (\<lambda>n. n @ '':'') ids))
       \<and> (2 \<le> length ids \<longrightarrow>
            parse_mission (join_with CHR ''+'' ids) = Inr (map mission_string (permutations ids))
          \<and> parse_mission (join_with CHR ''_'' ids) = Inr [mission_string ids]
          \<and> parse_mission (join_with CHR '','' ids) = Inr (map (\<lambda>n. n @ '':'') ids))"
proof -
  have perm_names: "\<forall>n\<in>set p. node_name_ok n" and perm_ne: "p \<noteq> []"
    if "p \<in> set (permutations ids)" for p
  proof -
    from that have m: "mset p = mset ids" unfolding set_permutations by simp
    then have "set p = set ids" by (rule mset_eq_setD)
    with assms(2) show "\<forall>n\<in>set p. node_name_ok n" by simp
    from m assms(1) show "p \<noteq> []" by auto
  qed
  have hd_ok: "node_name_ok (hd ids)" using assms by (cases ids) auto
  have one: "map close_mission [hd ids] = [mission_string ids]" if "\<not> 2 \<le> length ids"
  proof -
    have "mission_string [hd ids] = mission_string ids"
      using single_id[OF assms(1) that] by simp
    then show ?thesis using node_name_shape[OF hd_ok] by simp
  qed
  have one_ok: "\<forall>m\<in>set [hd ids]. m \<noteq> [] \<and> paren_free m \<and> no_double_colon m"
    using node_name_shape[OF hd_ok] by simp
  have plus: "deconstruct (''('' @ join_with CHR ''+'' ids @ '')'')
           = Some (Inr (map mission_string (permutations ids)))"
  proof (cases "2 \<le> length ids")
    case True
    have items: "\<forall>m\<in>set (map mission_string (permutations ids)).
                    m \<noteq> [] \<and> paren_free m \<and> no_double_colon m"
      using mission_string_shape[OF perm_names] mission_string_closed[OF perm_ne] by auto
    have "map close_mission (map mission_string (permutations ids))
            = map mission_string (permutations ids)"
      using mission_string_closed[OF perm_ne] by (intro map_idI) auto
    then show ?thesis
      using deconstruct_group[OF join_paren_free[OF assms(2)] _ items, of "CHR ''+''"]
        parse_groups(1)[OF assms] True by simp
  next
    case False
    have "permutations ids = [ids]"
      using single_id[OF assms(1) False] permutations_single[of "hd ids"] by simp
    then show ?thesis
      using deconstruct_group[OF join_paren_free[OF assms(2)] _ one_ok, of "CHR ''+''"]
        parse_groups(1)[OF assms] False one[OF False] by simp
  qed
  have under: "deconstruct (''('' @ join_with CHR ''_'' ids @ '')'') = Some (Inr [mission_string ids])"
  proof (cases "2 \<le> length ids")
    case True
    have items: "\<forall>m\<in>set [mission_string ids]. m \<noteq> [] \<and> paren_free m \<and> no_double_colon m"
      using mission_string_shape[OF assms(2)] mission_string_closed[OF assms(1)] by simp
    show ?thesis
      using deconstruct_group[OF join_paren_free[OF assms(2)] _ items, of "CHR ''_''"]
        parse_groups(2)[OF assms] True mission_string_closed[OF assms(1)] by simp
  next
    case False
    show ?thesis
      using deconstruct_group[OF join_paren_free[OF assms(2)] _ one_ok, of "CHR ''_''"]
        parse_groups(2)[OF assms] False one[OF False] by simp
  qed
  have comma: "deconstruct (''('' @ join_with CHR '','' ids @ '')'')
           = Some (Inr (map (\<lambda>n. n @ '':'') ids))"
  proof (cases "2 \<le> length ids")
    case True
    have each: "n @ '':'' \<noteq> [] \<and> paren_free (n @ '':'') \<and> no_double_colon (n @ '':'')
                \<and> close_mission (n @ '':'') = n @ '':''" if "n \<in> set ids" for n
    proof -
      have ok: "\<forall>k\<in>set [n]. node_name_ok k" using that assms(2) by simp
      show ?thesis
        using mission_string_shape[OF ok] mission_string_closed[of "[n]"]
        by (simp add: mission_string_def)
    qed
    have items: "\<forall>m\<in>set (map (\<lambda>n. n @ '':'') ids). m \<noteq> [] \<and> paren_free m \<and> no_double_colon m"
      using each by auto
    have "map close_mission (map (\<lambda>n. n @ '':'') ids) = map (\<lambda>n. n @ '':'') ids"
      using each by (intro map_idI) auto
    then show ?thesis
      using deconstruct_group[OF join_paren_free[OF assms(2)] _ items, of "CHR '',''"]
        parse_groups(3)[OF assms] True by simp
  next
    case False
    have "map (\<lambda>n. n @ '':'') ids = [mission_string ids]"
      using single_id[OF assms(1) False] by (metis (no_types) list.simps(8,9) mission_string_def concat.simps append_Nil2)
    then show ?thesis
      using deconstruct_group[OF join_paren_free[OF assms(2)] _ one_ok, of "CHR '',''"]
        parse_groups(3)[OF assms] False one[OF False] by simp
  qed
  show ?thesis
    using plus under comma parse_groups[OF assms]
    by (simp add: length_permutations set_permutations)
qed

text \<open>The theorem at the group of the two identifiers \<open>A\<close> and \<open>B\<close>: \<open>(A_B)\<close> gives
  the one mission \<open>A:B:\<close> and not its reverse.\<close>

theorem parse_mission_group_witness:
  "deconstruct ''(A+B)'' = Some (Inr [''A:B:'', ''B:A:''])
   \<and> deconstruct ''(A_B)'' = Some (Inr [''A:B:''])
   \<and> deconstruct ''(A,B)'' = Some (Inr [''A:'', ''B:''])
   \<and> parse_mission ''A+B'' = Inr [''A:B:'', ''B:A:'']"
proof -
  have a: "[''A'', ''B''] \<noteq> []" by simp
  have b: "\<forall>n\<in>set [''A'', ''B'']. node_name_ok n" by (simp add: node_name_ok_def)
  have p: "permutations [''A'', ''B''] = [[''A'', ''B''], [''B'', ''A'']]"
    by (simp add: permutations.simps upt_rec)
  show ?thesis
    using parse_mission_group[OF a b] by (simp add: p mission_string_def)
qed

section \<open>Segment enumerator: \<^verbatim>\<open>print_all_paths\<close>\<close>

text \<open>
  A worker receives a \<^verbatim>\<open>datapack\<close>: the graph over node numbers, the list of node
  identifiers, the three breach dictionaries keyed by identifier, and the three budgets.
  \<^verbatim>\<open>print_all_paths_util\<close> walks the graph depth first and, each time it stands on
  the destination, computes the costs of the nodes on its stack and stores the path text
  and its costs when the three budgets hold.
\<close>

text \<open>The dictionary handed to a worker (\<^verbatim>\<open>datapack['g']\<close>, \<^verbatim>\<open>datapack['node_id']\<close>, ...).
  The two file names and the start and destination numbers are arguments of the functions
  below.\<close>

record datapack =
  dp_g :: "nat \<rightharpoonup> nat list"
  node_id :: "string list"
  node_consum :: "string \<rightharpoonup> int"
  node_time :: "string \<rightharpoonup> int"
  node_tools :: "string \<rightharpoonup> int list"
  max_time :: int
  max_consumables :: int
  max_weight :: int

text \<open>The value stored for a path: \<^verbatim>\<open>[total_time, total_consum, total_weight, new_tools]\<close>.\<close>

record pathdata =
  total_time :: int
  total_consum :: int
  total_weight :: int
  new_tools :: "int list"

text \<open>The two dictionaries the walk fills, in insertion order.\<close>

record seg_state =
  segment_paths :: "(string \<times> string list) list"
  segment_pathdata :: "(string \<times> pathdata) list"

text \<open>The characters \<^verbatim>\<open>str.strip()\<close> removes (code points below 256).\<close>

definition is_space :: "char \<Rightarrow> bool" where
  "is_space c \<longleftrightarrow> c \<in> set [CHR 0x09, CHR 0x0A, CHR 0x0B, CHR 0x0C, CHR 0x0D,
                             CHR 0x1C, CHR 0x1D, CHR 0x1E, CHR 0x1F, CHR 0x20, CHR 0x85, CHR 0xA0]"

text \<open>\<^verbatim>\<open>str.strip()\<close>.\<close>

definition strip :: "string \<Rightarrow> string" where
  "strip s = rev (dropWhile is_space (rev (dropWhile is_space s)))"

text \<open>\<^verbatim>\<open>d[k]\<close> on a dictionary.\<close>

definition lookup :: "('k \<rightharpoonup> 'v) \<Rightarrow> 'k \<Rightarrow> pyerr + 'v" where
  "lookup m k = (case m k of None \<Rightarrow> Inl KeyError | Some v \<Rightarrow> Inr v)"

text \<open>\<^verbatim>\<open>xs[i]\<close> on a list, for an index that is not negative.\<close>

definition index :: "'a list \<Rightarrow> nat \<Rightarrow> pyerr + 'a" where
  "index xs i = (if i < length xs then Inr (xs ! i) else Inl IndexError)"

text \<open>The inner loop \<^verbatim>\<open>for i in range(0, 19)\<close> of the cost computation: the running
  maximum of tool \<open>i\<close> is raised to the node's value and added to the total weight.\<close>

fun merge_tools :: "int list \<Rightarrow> nat list \<Rightarrow> int list \<times> int \<Rightarrow> pyerr + int list \<times> int" where
  "merge_tools old_tools [] (nt, tw) = Inr (nt, tw)"
| "merge_tools old_tools (i # r) (nt, tw) =
     (if length old_tools \<le> i \<or> length nt \<le> i then Inl IndexError
      else let nt' = (if old_tools ! i > nt ! i then nt[i := old_tools ! i] else nt)
           in merge_tools old_tools r (nt', tw + nt' ! i))"

text \<open>The loop \<^verbatim>\<open>for item in path\<close>: the path text grows by a dash and the identifier when
  it already has more than one character and is replaced by the identifier otherwise;
  consumables and breach times add up; the total weight restarts from the consumables at
  every node.\<close>

fun cost_loop :: "datapack \<Rightarrow> nat list \<Rightarrow> string \<times> pathdata \<Rightarrow> pyerr + string \<times> pathdata" where
  "cost_loop dp [] acc = Inr acc"
| "cost_loop dp (item # r) (my_path, pd) =
     (case index (node_id dp) item of Inl e \<Rightarrow> Inl e | Inr raw \<Rightarrow>
      (let item_id = strip raw;
           my_path' = (if length my_path > 1 then my_path @ ''-'' @ item_id else item_id)
       in (case lookup (node_consum dp) item_id of Inl e \<Rightarrow> Inl e | Inr c \<Rightarrow>
          (case lookup (node_time dp) item_id of Inl e \<Rightarrow> Inl e | Inr t \<Rightarrow>
          (case lookup (node_tools dp) item_id of Inl e \<Rightarrow> Inl e | Inr old_tools \<Rightarrow>
          (case merge_tools old_tools [0..<19] (new_tools pd, total_consum pd + c) of
             Inl e \<Rightarrow> Inl e
           | Inr (nt, tw) \<Rightarrow>
               cost_loop dp r (my_path', \<lparr>total_time = total_time pd + t,
                                         total_consum = total_consum pd + c,
                                         total_weight = tw, new_tools = nt\<rparr>)))))))"

text \<open>The cost computation on a complete path, from its initial values.\<close>

definition path_costs :: "datapack \<Rightarrow> nat list \<Rightarrow> pyerr + string \<times> pathdata" where
  "path_costs dp path =
     cost_loop dp path ([], \<lparr>total_time = 0, total_consum = 0, total_weight = 0,
                              new_tools = replicate 20 0\<rparr>)"

text \<open>The end of the destination branch: the key is entered with an empty list when it is
  new, and when the three budgets hold the path text is appended to the key's list and
  its costs are stored under the path text.\<close>

definition store_path :: "datapack \<Rightarrow> string \<Rightarrow> string \<times> pathdata \<Rightarrow> seg_state \<Rightarrow> seg_state" where
  "store_path dp this_key r st =
     (let (my_path, pd) = r;
          sp = (if map_of (segment_paths st) this_key = None
                then AList.update this_key [] (segment_paths st) else segment_paths st)
      in if total_consum pd \<le> max_consumables dp \<and> total_time pd \<le> max_time dp
            \<and> total_weight pd \<le> max_weight dp
         then \<lparr>segment_paths =
                 AList.update this_key
                   ((case map_of sp this_key of None \<Rightarrow> [] | Some ws \<Rightarrow> ws) @ [my_path]) sp,
               segment_pathdata = AList.update my_path pd (segment_pathdata st)\<rparr>
         else st\<lparr>segment_paths := sp\<rparr>)"

text \<open>The destination branch of \<^verbatim>\<open>print_all_paths_util\<close>.\<close>

definition emit_path :: "datapack \<Rightarrow> nat list \<Rightarrow> seg_state \<Rightarrow> pyerr + seg_state" where
  "emit_path dp path st =
     (if path = [] then Inl IndexError else
      (case index (node_id dp) (hd path) of Inl e \<Rightarrow> Inl e | Inr start_node \<Rightarrow>
      (case index (node_id dp) (last path) of Inl e \<Rightarrow> Inl e | Inr dest_node \<Rightarrow>
      (case path_costs dp path of
         Inl e \<Rightarrow> Inl e
       | Inr r \<Rightarrow> Inr (store_path dp (start_node @ '':'' @ dest_node) r st)))))"

text \<open>A \<^verbatim>\<open>for\<close> loop over a list whose body updates a state and may raise.\<close>

fun for_each :: "('a \<Rightarrow> 's \<Rightarrow> pyerr + 's) \<Rightarrow> 'a list \<Rightarrow> 's \<Rightarrow> pyerr + 's" where
  "for_each f [] s = Inr s"
| "for_each f (x # xs) s = (case f x s of Inl e \<Rightarrow> Inl e | Inr s' \<Rightarrow> for_each f xs s')"

text \<open>The loop body is only applied to elements of the list.\<close>

lemma for_each_cong [fundef_cong]:
  "xs = ys \<Longrightarrow> s = t \<Longrightarrow> (\<And>x s'. x \<in> set ys \<Longrightarrow> f x s' = g x s')
   \<Longrightarrow> for_each f xs s = for_each g ys t"
  by (induction ys arbitrary: xs s t) (auto split: sum.splits)

text \<open>The number of entries of \<^verbatim>\<open>visited\<close> that are \<^verbatim>\<open>False\<close>; marking a node that is
  not yet visited lowers it.\<close>

definition unvisited_count :: "(nat \<times> bool) list \<Rightarrow> nat" where
  "unvisited_count visited = length (filter (\<lambda>kv. \<not> snd kv) visited)"

lemma unvisited_count_mark:
  "map_of visited i = Some False \<Longrightarrow>
   unvisited_count (AList.update i True visited) < unvisited_count visited"
  by (induction visited) (auto simp: unvisited_count_def split: if_splits)

text \<open>\<^verbatim>\<open>print_all_paths_util(u, d, visited, path, ...)\<close>. The source marks \<open>u\<close> and
  appends it to \<^verbatim>\<open>path\<close> on entry and undoes both on exit; a node is entered only while
  its mark is \<^verbatim>\<open>False\<close>, so on exit both have the value the caller passed, and the model
  passes them down instead of returning them. \<^verbatim>\<open>depth\<close> and the log are not read.\<close>

function print_all_paths_util ::
  "datapack \<Rightarrow> nat \<Rightarrow> nat \<Rightarrow> (nat \<times> bool) list \<Rightarrow> nat list \<Rightarrow> seg_state \<Rightarrow> pyerr + seg_state" where
  "print_all_paths_util dp u d visited path st =
     (if u = d then emit_path dp (path @ [u]) st
      else case dp_g dp u of None \<Rightarrow> Inl KeyError
           | Some adj \<Rightarrow>
               for_each (\<lambda>i st'.
                  case map_of (AList.update u True visited) i of
                    None \<Rightarrow> Inl KeyError
                  | Some seen \<Rightarrow>
                      if \<not> seen
                      then print_all_paths_util dp i d (AList.update u True visited) (path @ [u]) st'
                      else Inr st') adj st)"
  by pat_completeness auto
termination
  by (relation "measure (\<lambda>(dp, u, d, visited, path, st). unvisited_count (AList.update u True visited))")
     (auto intro: unvisited_count_mark)


declare print_all_paths_util.simps [simp del]

text \<open>\<^verbatim>\<open>visited[i] = False\<close> for every node number.\<close>

definition fresh_visited :: "nat \<Rightarrow> (nat \<times> bool) list" where
  "fresh_visited n = map (\<lambda>i. (i, False)) [0..<n]"

text \<open>\<^verbatim>\<open>print_all_paths\<close>: the walk from the start node, then the key is entered with an
  empty list when the walk stored nothing under it. The result is the pair of
  dictionaries; \<^verbatim>\<open>save_this_data\<close> writes the second one to the segment file.\<close>

definition print_all_paths :: "datapack \<Rightarrow> nat \<Rightarrow> nat \<Rightarrow> pyerr + seg_state" where
  "print_all_paths dp s d =
     (case print_all_paths_util dp s d (fresh_visited (length (node_id dp))) []
             \<lparr>segment_paths = [], segment_pathdata = []\<rparr> of
        Inl e \<Rightarrow> Inl e
      | Inr st \<Rightarrow>
          (case index (node_id dp) s of Inl e \<Rightarrow> Inl e | Inr start_node \<Rightarrow>
          (case index (node_id dp) d of Inl e \<Rightarrow> Inl e | Inr dest_node \<Rightarrow>
          (let this_key = start_node @ '':'' @ dest_node
           in Inr (if map_of (segment_paths st) this_key = None
                   then st\<lparr>segment_paths := AList.update this_key [] (segment_paths st)\<rparr>
                   else st)))))"

text \<open>The graph has an edge from \<open>u\<close> to \<open>v\<close>.\<close>

definition edge :: "datapack \<Rightarrow> nat \<Rightarrow> nat \<Rightarrow> bool" where
  "edge dp u v = (case dp_g dp u of None \<Rightarrow> False | Some adj \<Rightarrow> v \<in> set adj)"

text \<open>Consecutive nodes are joined by edges.\<close>

fun is_walk :: "datapack \<Rightarrow> nat list \<Rightarrow> bool" where
  "is_walk dp [] = True"
| "is_walk dp [x] = True"
| "is_walk dp (x # y # r) = (edge dp x y \<and> is_walk dp (y # r))"

text \<open>A simple path from \<open>s\<close> to \<open>d\<close>: not empty, from \<open>s\<close> to \<open>d\<close>, along edges,
  with no node twice.\<close>

definition simple_path :: "datapack \<Rightarrow> nat \<Rightarrow> nat \<Rightarrow> nat list \<Rightarrow> bool" where
  "simple_path dp s d p \<longleftrightarrow> p \<noteq> [] \<and> hd p = s \<and> last p = d \<and> distinct p \<and> is_walk dp p"

text \<open>What \<^verbatim>\<open>load_g_from_file\<close> builds: every node number has an adjacency list, and the
  lists hold node numbers.\<close>

definition graph_ok :: "datapack \<Rightarrow> bool" where
  "graph_ok dp \<longleftrightarrow>
     (\<forall>u < length (node_id dp).
        case dp_g dp u of None \<Rightarrow> False | Some adj \<Rightarrow> \<forall>v \<in> set adj. v < length (node_id dp))"

text \<open>The simple paths from \<open>u\<close> to \<open>d\<close> whose nodes after \<open>u\<close> are not yet visited.\<close>

definition open_paths :: "datapack \<Rightarrow> nat \<Rightarrow> (nat \<times> bool) list \<Rightarrow> nat \<Rightarrow> nat list set" where
  "open_paths dp d visited u =
     {q. q \<noteq> [] \<and> hd q = u \<and> last q = d \<and> distinct q \<and> is_walk dp q
         \<and> (\<forall>x\<in>set (tl q). map_of visited x = Some False)}"

text \<open>The identifier under which a node's breach data is looked up.\<close>

definition node_key :: "datapack \<Rightarrow> nat \<Rightarrow> string" where
  "node_key dp x = strip (node_id dp ! x)"

text \<open>The consumable weight of a node.\<close>

definition consum_at :: "datapack \<Rightarrow> nat \<Rightarrow> int" where
  "consum_at dp x = (case node_consum dp (node_key dp x) of None \<Rightarrow> 0 | Some c \<Rightarrow> c)"

text \<open>The breach time of a node.\<close>

definition time_at :: "datapack \<Rightarrow> nat \<Rightarrow> int" where
  "time_at dp x = (case node_time dp (node_key dp x) of None \<Rightarrow> 0 | Some t \<Rightarrow> t)"

text \<open>The tool weights of a node.\<close>

definition tools_at :: "datapack \<Rightarrow> nat \<Rightarrow> int list" where
  "tools_at dp x = (case node_tools dp (node_key dp x) of None \<Rightarrow> [] | Some ts \<Rightarrow> ts)"

text \<open>What \<^verbatim>\<open>get_all_breaches\<close> builds: every node has a breach time, a consumable
  weight and tool weights (twenty of them; the loop reads the first nineteen).\<close>

definition catalog_ok :: "datapack \<Rightarrow> bool" where
  "catalog_ok dp \<longleftrightarrow>
     (\<forall>x < length (node_id dp).
        node_consum dp (node_key dp x) \<noteq> None \<and> node_time dp (node_key dp x) \<noteq> None
        \<and> (case node_tools dp (node_key dp x) of None \<Rightarrow> False | Some ts \<Rightarrow> 19 \<le> length ts))"

text \<open>The path text the cost loop builds from a list of identifiers.\<close>

fun join_path :: "string \<Rightarrow> string list \<Rightarrow> string" where
  "join_path acc [] = acc"
| "join_path acc (x # r) = join_path (if length acc > 1 then acc @ ''-'' @ x else x) r"

text \<open>The path text of a list of node numbers.\<close>

definition my_path_of :: "datapack \<Rightarrow> nat list \<Rightarrow> string" where
  "my_path_of dp p = join_path [] (map (node_key dp) p)"

text \<open>The tool vector after one node: the first nineteen entries raised to the node's.\<close>

definition merged :: "int list \<Rightarrow> int list \<Rightarrow> int list" where
  "merged old nt = map (\<lambda>j. if j < 19 then max (nt ! j) (old ! j) else nt ! j) [0..<length nt]"

text \<open>The tool vector after a list of nodes.\<close>

definition tools_fold :: "datapack \<Rightarrow> nat list \<Rightarrow> int list \<Rightarrow> int list" where
  "tools_fold dp p nt = fold (\<lambda>x nt. merged (tools_at dp x) nt) p nt"

text \<open>The test of the destination branch.\<close>

definition within_budget :: "datapack \<Rightarrow> pathdata \<Rightarrow> bool" where
  "within_budget dp pd \<longleftrightarrow>
     total_consum pd \<le> max_consumables dp \<and> total_time pd \<le> max_time dp
     \<and> total_weight pd \<le> max_weight dp"

text \<open>The entries a set of paths contributes: path text and costs of those within budget.\<close>

definition hits :: "datapack \<Rightarrow> nat list set \<Rightarrow> (string \<times> pathdata) set" where
  "hits dp S = {(k, pd). \<exists>p\<in>S. path_costs dp p = Inr (k, pd) \<and> within_budget dp pd}"

text \<open>\<^verbatim>\<open>segment_paths.get(this_key, [])\<close>.\<close>

definition paths_for :: "string \<Rightarrow> seg_state \<Rightarrow> string list" where
  "paths_for K st = (case map_of (segment_paths st) K of None \<Rightarrow> [] | Some ws \<Rightarrow> ws)"

text \<open>The key of a segment: the two identifiers joined by a colon.\<close>

definition segment_key :: "datapack \<Rightarrow> nat \<Rightarrow> nat \<Rightarrow> string" where
  "segment_key dp s d = node_id dp ! s @ '':'' @ node_id dp ! d"

text \<open>A datapack as the loaders build it.\<close>

definition datapack_ok :: "datapack \<Rightarrow> bool" where
  "datapack_ok dp \<longleftrightarrow> graph_ok dp \<and> catalog_ok dp"

text \<open>Scenario A: \<^verbatim>\<open>start\<close> with an edge to \<^verbatim>\<open>T1\<close>, which needs 100 s, 10 lb of
  consumables and one tool of 5 lb.\<close>

definition scenarioA :: datapack where
  "scenarioA = \<lparr>dp_g = [0 \<mapsto> [1], 1 \<mapsto> []], node_id = [''start'', ''T1''],
      node_consum = [''start'' \<mapsto> 0, ''T1'' \<mapsto> 10], node_time = [''start'' \<mapsto> 0, ''T1'' \<mapsto> 100],
      node_tools = [''start'' \<mapsto> replicate 21 0, ''T1'' \<mapsto> 5 # replicate 19 0],
      max_time = 200, max_consumables = 50, max_weight = 50\<rparr>"

text \<open>Two target nodes \<^verbatim>\<open>N1\<close> and \<^verbatim>\<open>N2\<close> reachable from \<^verbatim>\<open>start\<close> and from
  each other, each needing 50 s and 5 lb of consumables; \<^verbatim>\<open>N2\<close> needs 7 lb of the
  twentieth tool.\<close>

definition two_targets :: datapack where
  "two_targets = \<lparr>dp_g = [0 \<mapsto> [1, 2], 1 \<mapsto> [2], 2 \<mapsto> [1]], node_id = [''start'', ''N1'', ''N2''],
      node_consum = [''start'' \<mapsto> 0, ''N1'' \<mapsto> 5, ''N2'' \<mapsto> 5],
      node_time = [''start'' \<mapsto> 0, ''N1'' \<mapsto> 50, ''N2'' \<mapsto> 50],
      node_tools = [''start'' \<mapsto> replicate 21 0, ''N1'' \<mapsto> replicate 20 0,
                    ''N2'' \<mapsto> replicate 19 0 @ [7]],
      max_time = 2222, max_consumables = 333, max_weight = 444\<rparr>"

text \<open>Scenario B: the same graph with the one-letter identifiers \<^verbatim>\<open>A\<close> and \<^verbatim>\<open>B\<close>.\<close>

definition scenarioB :: datapack where
  "scenarioB = \<lparr>dp_g = [0 \<mapsto> [1, 2], 1 \<mapsto> [2], 2 \<mapsto> [1]], node_id = [''start'', ''A'', ''B''],
      node_consum = [''start'' \<mapsto> 0, ''A'' \<mapsto> 5, ''B'' \<mapsto> 5],
      node_time = [''start'' \<mapsto> 0, ''A'' \<mapsto> 50, ''B'' \<mapsto> 50],
      node_tools = [''start'' \<mapsto> replicate 21 0, ''A'' \<mapsto> replicate 20 0, ''B'' \<mapsto> replicate 20 0],
      max_time = 2222, max_consumables = 333, max_weight = 444\<rparr>"

text \<open>Three nodes with one-letter identifiers: from \<^verbatim>\<open>A\<close> an edge to \<^verbatim>\<open>B\<close> and an edge
  to \<^verbatim>\<open>C\<close>, from \<^verbatim>\<open>C\<close> an edge to \<^verbatim>\<open>B\<close>. \<^verbatim>\<open>A\<close> costs nothing, \<^verbatim>\<open>B\<close> and \<^verbatim>\<open>C\<close>
  need 50 s and 5 lb of consumables each; the budgets are the defaults.\<close>

definition three_letters :: datapack where
  "three_letters = \<lparr>dp_g = [0 \<mapsto> [1, 2], 1 \<mapsto> [], 2 \<mapsto> [1]], node_id = [''A'', ''B'', ''C''],
      node_consum = [''A'' \<mapsto> 0, ''B'' \<mapsto> 5, ''C'' \<mapsto> 5],
      node_time = [''A'' \<mapsto> 0, ''B'' \<mapsto> 50, ''C'' \<mapsto> 50],
      node_tools = [''A'' \<mapsto> replicate 20 0, ''B'' \<mapsto> replicate 20 0,
                    ''C'' \<mapsto> replicate 20 0],
      max_time = 2222, max_consumables = 333, max_weight = 444\<rparr>"

text \<open>The three budgets on the costs of the nodes of a path: the breach times, the
  consumables, and the consumables plus each of the 20 tools at its largest weight.\<close>

definition node_costs_within :: "datapack \<Rightarrow> nat list \<Rightarrow> bool" where
  "node_costs_within dp p \<longleftrightarrow>
     (\<Sum>x\<leftarrow>p. time_at dp x) \<le> max_time dp
     \<and> (\<Sum>x\<leftarrow>p. consum_at dp x) \<le> max_consumables dp
     \<and> (\<Sum>x\<leftarrow>p. consum_at dp x)
         + (\<Sum>i\<leftarrow>[0..<20]. fold max (map (\<lambda>x. tools_at dp x ! i) p) 0) \<le> max_weight dp"


subsection \<open>Properties of the enumerator\<close>

lemma for_each_append:
  "for_each f (xs @ ys) s = (case for_each f xs s of Inl e \<Rightarrow> Inl e | Inr s' \<Rightarrow> for_each f ys s')"
  by (induction xs arbitrary: s) (auto split: sum.splits)

lemma for_each_collect:
  assumes "\<forall>i\<in>set xs. \<exists>L. (\<forall>st. f i st = for_each e L st) \<and> set L = S i"
  shows "\<exists>L. (\<forall>st. for_each f xs st = for_each e L st) \<and> set L = (\<Union>i\<in>set xs. S i)"
  using assms
proof (induction xs)
  case Nil
  have "(\<forall>st. for_each f [] st = for_each e [] st) \<and> set [] = (\<Union>i\<in>set []. S i)" by simp
  then show ?case by blast
next
  case (Cons i xs)
  then obtain Li where Li: "\<forall>st. f i st = for_each e Li st" "set Li = S i" by auto
  from Cons obtain Lr where Lr: "\<forall>st. for_each f xs st = for_each e Lr st" "set Lr = (\<Union>i\<in>set xs. S i)"
    by auto
  have "\<forall>st. for_each f (i # xs) st = for_each e (Li @ Lr) st"
    using Li(1) Lr(1) by (auto simp: for_each_append split: sum.splits)
  moreover have "set (Li @ Lr) = (\<Union>i\<in>set (i # xs). S i)"
    using Li(2) Lr(2) by simp
  ultimately show ?case by blast
qed

lemma hd_last_distinct: "q \<noteq> [] \<Longrightarrow> distinct q \<Longrightarrow> hd q = last q \<Longrightarrow> q = [hd q]"
  by (cases q) (auto split: if_splits)

lemma open_paths_dest: "open_paths dp d visited d = {[d]}"
  by (auto simp: open_paths_def dest: hd_last_distinct)

lemma map_of_mark: "map_of (AList.update u True visited) x = (if x = u then Some True else map_of visited x)"
  by (simp add: update_conv')

lemma open_paths_step:
  assumes "u \<noteq> d" and "dp_g dp u = Some adj"
  shows "open_paths dp d visited u =
         (\<Union>i\<in>set adj. if map_of (AList.update u True visited) i = Some False
                        then (#) u ` open_paths dp d (AList.update u True visited) i else {})"
    (is "?A = ?B")
proof (intro set_eqI iffI)
  fix q assume "q \<in> ?A"
  then have q: "q \<noteq> []" "hd q = u" "last q = d" "distinct q" "is_walk dp q"
    "\<forall>x\<in>set (tl q). map_of visited x = Some False"
    by (auto simp: open_paths_def)
  from q(1,2) obtain r where qr: "q = u # r" by (cases q) auto
  with q(3) assms(1) have rne: "r \<noteq> []" by auto
  then obtain i r' where r: "r = i # r'" by (cases r) auto
  from q(5) qr r assms(2) have iadj: "i \<in> set adj" by (auto simp: edge_def)
  from q(4) qr have unr: "u \<notin> set r" by simp
  have vis: "\<forall>x\<in>set r. map_of (AList.update u True visited) x = Some False"
    using q(6) qr unr by (auto simp: map_of_mark)
  have "r \<in> open_paths dp d (AList.update u True visited) i"
    using q qr r vis by (auto simp: open_paths_def)
  moreover have "map_of (AList.update u True visited) i = Some False"
    using vis r by simp
  ultimately show "q \<in> ?B" using iadj qr by auto
next
  fix q assume "q \<in> ?B"
  then obtain i r where i: "i \<in> set adj" "map_of (AList.update u True visited) i = Some False"
    and r: "r \<in> open_paths dp d (AList.update u True visited) i" and q: "q = u # r"
    by (auto split: if_splits)
  from r have rp: "r \<noteq> []" "hd r = i" "last r = d" "distinct r" "is_walk dp r"
    "\<forall>x\<in>set (tl r). map_of (AList.update u True visited) x = Some False"
    by (auto simp: open_paths_def)
  from rp(1,2) obtain r' where rr: "r = i # r'" by (cases r) auto
  have all: "\<forall>x\<in>set r. map_of (AList.update u True visited) x = Some False"
    using rp(6) i(2) rr by auto
  then have "u \<notin> set r" by (auto simp: map_of_mark)
  moreover have "\<forall>x\<in>set r. map_of visited x = Some False"
    using all by (auto simp: map_of_mark split: if_splits)
  moreover have "is_walk dp (u # r)"
    using rp(5) rr i(1) assms(2) by (simp add: edge_def)
  ultimately show "q \<in> ?A"
    using q rp by (auto simp: open_paths_def)
qed

lemma util_enumerates:
  fixes st :: seg_state
  assumes "graph_ok dp"
  shows "u < length (node_id dp) \<Longrightarrow> dom (map_of visited) = {..<length (node_id dp)} \<Longrightarrow>
         \<exists>L. (\<forall>st'. print_all_paths_util dp u d visited path st' = for_each (emit_path dp) L st')
            \<and> set L = (@) (path @ [u]) ` tl ` open_paths dp d visited u"
  using assms
proof (induction dp u d visited path st rule: print_all_paths_util.induct)
  case (1 dp u d visited path st)
  let ?n = "length (node_id dp)"
  let ?vis = "AList.update u True visited"
  show ?case
  proof (cases "u = d")
    case True
    have "\<forall>st'. print_all_paths_util dp u d visited path st' = for_each (emit_path dp) [path @ [u]] st'"
      using True by (simp add: print_all_paths_util.simps split: sum.splits)
    moreover have "set [path @ [u]] = (@) (path @ [u]) ` tl ` open_paths dp d visited u"
      using True by (simp add: open_paths_dest)
    ultimately show ?thesis by blast
  next
    case False
    from "1.prems" obtain adj where adj: "dp_g dp u = Some adj" "\<forall>v\<in>set adj. v < ?n"
      by (auto simp: graph_ok_def split: option.splits)
    have "dom (map_of ?vis) = insert u (dom (map_of visited))"
      by (simp add: update_conv')
    with "1.prems"(1,2) have domvis: "dom (map_of ?vis) = {..<?n}"
      by auto
    let ?f = "\<lambda>i st'. case map_of ?vis i of None \<Rightarrow> Inl KeyError
                 | Some seen \<Rightarrow> if \<not> seen then print_all_paths_util dp i d ?vis (path @ [u]) st'
                                else Inr st'"
    let ?S = "\<lambda>i. if map_of ?vis i = Some False
                   then (@) ((path @ [u]) @ [i]) ` tl ` open_paths dp d ?vis i else {}"
    have each: "\<forall>i\<in>set adj. \<exists>L. (\<forall>st'. ?f i st' = for_each (emit_path dp) L st') \<and> set L = ?S i"
    proof
      fix i assume i: "i \<in> set adj"
      with adj(2) have iin: "i < ?n" by simp
      with domvis obtain seen where seen: "map_of ?vis i = Some seen" by blast
      show "\<exists>L. (\<forall>st'. ?f i st' = for_each (emit_path dp) L st') \<and> set L = ?S i"
      proof (cases seen)
        case True
        have "(\<forall>st'. ?f i st' = for_each (emit_path dp) [] st') \<and> set [] = ?S i"
          using seen True by simp
        then show ?thesis by blast
      next
        case notseen: False
        from "1.IH"[OF False adj(1) i seen _ iin domvis "1.prems"(3)] notseen
        obtain L where "\<forall>st'. print_all_paths_util dp i d ?vis (path @ [u]) st' = for_each (emit_path dp) L st'"
          "set L = (@) ((path @ [u]) @ [i]) ` tl ` open_paths dp d ?vis i"
          by auto
        then have "(\<forall>st'. ?f i st' = for_each (emit_path dp) L st') \<and> set L = ?S i"
          using seen notseen by simp
        then show ?thesis by blast
      qed
    qed
    from for_each_collect[OF each] obtain L where
      L: "\<forall>st'. for_each ?f adj st' = for_each (emit_path dp) L st'" "set L = (\<Union>i\<in>set adj. ?S i)"
      by blast
    have run: "\<forall>st'. print_all_paths_util dp u d visited path st' = for_each (emit_path dp) L st'"
      using False adj(1) L(1) by (subst print_all_paths_util.simps) simp
    have hd_open: "\<And>i r. r \<in> open_paths dp d ?vis i \<Longrightarrow> i # tl r = r"
      by (auto simp: open_paths_def)
    have "(\<Union>i\<in>set adj. ?S i) = (@) (path @ [u]) ` tl ` open_paths dp d visited u"
    proof (intro set_eqI iffI)
      fix p assume "p \<in> (\<Union>i\<in>set adj. ?S i)"
      then obtain i where i1: "i \<in> set adj" and pS: "p \<in> ?S i" by blast
      have i2: "map_of ?vis i = Some False"
        using pS by (cases "map_of ?vis i = Some False") simp_all
      with pS have "p \<in> (@) ((path @ [u]) @ [i]) ` tl ` open_paths dp d ?vis i" by simp
      then obtain r where r: "r \<in> open_paths dp d ?vis i" and p: "p = ((path @ [u]) @ [i]) @ tl r"
        by blast
      have "tl (u # r) = [i] @ tl r" using hd_open[OF r] by simp
      with p have p': "p = (path @ [u]) @ tl (u # r)" by simp
      have "u # r \<in> (#) u ` open_paths dp d ?vis i" using r by blast
      with i1 i2 have "u # r \<in> (\<Union>i\<in>set adj. if map_of ?vis i = Some False
                        then (#) u ` open_paths dp d ?vis i else {})"
        by (intro UN_I[of i]) simp_all
      then have "u # r \<in> open_paths dp d visited u"
        unfolding open_paths_step[OF False adj(1)] .
      with p' show "p \<in> (@) (path @ [u]) ` tl ` open_paths dp d visited u" by blast
    next
      fix p assume "p \<in> (@) (path @ [u]) ` tl ` open_paths dp d visited u"
      then obtain q where q: "q \<in> open_paths dp d visited u" and p: "p = (path @ [u]) @ tl q" by blast
      from q obtain i where i1: "i \<in> set adj"
        and qi: "q \<in> (if map_of ?vis i = Some False then (#) u ` open_paths dp d ?vis i else {})"
        unfolding open_paths_step[OF False adj(1)] by blast
      have i2: "map_of ?vis i = Some False"
        using qi by (cases "map_of ?vis i = Some False") simp_all
      with qi obtain r where r: "r \<in> open_paths dp d ?vis i" and qr: "q = u # r" by auto
      have "tl q = [i] @ tl r" using hd_open[OF r] qr by simp
      with p have "p = ((path @ [u]) @ [i]) @ tl r" by simp
      with r have "p \<in> (@) ((path @ [u]) @ [i]) ` tl ` open_paths dp d ?vis i" by blast
      with i2 have "p \<in> ?S i" by simp
      with i1 show "p \<in> (\<Union>i\<in>set adj. ?S i)" by blast
    qed
    then have "set L = (@) (path @ [u]) ` tl ` open_paths dp d visited u"
      using L(2) by (rule trans[rotated])
    with run show ?thesis by (intro exI[of _ L] conjI)
  qed
qed

lemma merge_tools_gen:
  "distinct js \<Longrightarrow> \<forall>i\<in>set js. i < length old \<and> i < length nt \<Longrightarrow>
   merge_tools old js (nt, tw) =
     Inr (map (\<lambda>j. if j \<in> set js then max (nt ! j) (old ! j) else nt ! j) [0..<length nt],
          tw + (\<Sum>i\<leftarrow>js. max (nt ! i) (old ! i)))"
proof (induction js arbitrary: nt tw)
  case Nil
  then show ?case by (simp add: map_nth)
next
  case (Cons i js)
  let ?nt = "nt[i := max (nt ! i) (old ! i)]"
  have upd: "(if old ! i > nt ! i then nt[i := old ! i] else nt) = ?nt"
    by (auto simp: max_def)
  have len: "i < length old" "i < length nt" using Cons.prems by auto
  have rest: "\<forall>k\<in>set js. k < length old \<and> k < length ?nt" using Cons.prems by auto
  have dj: "distinct js" "i \<notin> set js" using Cons.prems by auto
  have nth_same: "?nt ! k = nt ! k" if "k \<in> set js" for k
  proof -
    from that dj(2) have "i \<noteq> k" by auto
    then show ?thesis by (rule nth_list_update_neq)
  qed
  have s1: "(\<Sum>k\<leftarrow>js. max (?nt ! k) (old ! k)) = (\<Sum>k\<leftarrow>js. max (nt ! k) (old ! k))"
    by (rule arg_cong[where f=sum_list], rule map_cong) (auto simp: nth_same)
  have m1: "map (\<lambda>j. if j \<in> set js then max (?nt ! j) (old ! j) else ?nt ! j) [0..<length ?nt]
          = map (\<lambda>j. if j \<in> set (i # js) then max (nt ! j) (old ! j) else nt ! j) [0..<length nt]"
    using len dj by (auto simp: nth_list_update)
  have "merge_tools old (i # js) (nt, tw) = merge_tools old js (?nt, tw + ?nt ! i)"
    using len upd by (simp add: Let_def)
  also have "\<dots> = Inr (map (\<lambda>j. if j \<in> set js then max (?nt ! j) (old ! j) else ?nt ! j) [0..<length ?nt],
          tw + ?nt ! i + (\<Sum>k\<leftarrow>js. max (?nt ! k) (old ! k)))"
    by (rule Cons.IH[OF dj(1) rest])
  finally show ?case
    using len by (simp add: m1 s1 del: length_list_update)
qed

lemma merge_tools_19:
  assumes "19 \<le> length old" "19 \<le> length nt"
  shows "merge_tools old [0..<19] (nt, tw) = Inr (merged old nt, tw + (\<Sum>i\<leftarrow>[0..<19]. merged old nt ! i))"
proof -
  have a: "\<forall>i\<in>set [0..<19]. i < length old \<and> i < length nt" using assms by auto
  have s: "(\<Sum>i\<leftarrow>[0..<19]. max (nt ! i) (old ! i)) = (\<Sum>i\<leftarrow>[0..<19]. merged old nt ! i)"
    using assms(2) by (intro arg_cong[where f=sum_list] map_cong) (auto simp: merged_def)
  show ?thesis
    using merge_tools_gen[OF distinct_upt a, of tw] by (simp add: merged_def s)
qed

lemma length_merged [simp]: "length (merged old nt) = length nt"
  by (simp add: merged_def)

lemma tools_fold_simps [simp]:
  "tools_fold dp [] nt = nt"
  "tools_fold dp (x # p) nt = tools_fold dp p (merged (tools_at dp x) nt)"
  by (simp_all add: tools_fold_def)

lemma length_tools_fold [simp]: "length (tools_fold dp p nt) = length nt"
  by (induction p arbitrary: nt) auto

lemma tools_fold_nth:
  "j < length nt \<Longrightarrow>
   tools_fold dp p nt ! j =
     (if j < 19 then fold max (map (\<lambda>x. tools_at dp x ! j) p) (nt ! j) else nt ! j)"
  by (induction p arbitrary: nt) (auto simp: merged_def max.commute)

lemma catalog_okD:
  assumes "catalog_ok dp" "x < length (node_id dp)"
  shows "\<exists>c t ts. node_consum dp (node_key dp x) = Some c \<and> node_time dp (node_key dp x) = Some t
            \<and> node_tools dp (node_key dp x) = Some ts \<and> 19 \<le> length ts"
proof -
  from assms have a: "node_consum dp (node_key dp x) \<noteq> None" "node_time dp (node_key dp x) \<noteq> None"
    and b: "(case node_tools dp (node_key dp x) of None \<Rightarrow> False | Some ts \<Rightarrow> 19 \<le> length ts)"
    unfolding catalog_ok_def by blast+
  from b obtain ts where "node_tools dp (node_key dp x) = Some ts" "19 \<le> length ts"
    by (cases "node_tools dp (node_key dp x)") auto
  with a show ?thesis by auto
qed

lemma cost_loop_closed:
  assumes "catalog_ok dp"
  shows "\<forall>x\<in>set p. x < length (node_id dp) \<Longrightarrow> 19 \<le> length (new_tools pd) \<Longrightarrow>
    cost_loop dp p (mp, pd) =
      Inr (join_path mp (map (node_key dp) p),
           \<lparr>total_time = total_time pd + (\<Sum>x\<leftarrow>p. time_at dp x),
            total_consum = total_consum pd + (\<Sum>x\<leftarrow>p. consum_at dp x),
            total_weight = (if p = [] then total_weight pd
                            else total_consum pd + (\<Sum>x\<leftarrow>p. consum_at dp x)
                                 + (\<Sum>i\<leftarrow>[0..<19]. tools_fold dp p (new_tools pd) ! i)),
            new_tools = tools_fold dp p (new_tools pd)\<rparr>)"
proof (induction p arbitrary: mp pd)
  case Nil
  then show ?case by simp
next
  case (Cons x p)
  from Cons.prems have x: "x < length (node_id dp)" by simp
  from catalog_okD[OF assms x] obtain c t ts where
    c: "node_consum dp (node_key dp x) = Some c" and t: "node_time dp (node_key dp x) = Some t"
    and ts: "node_tools dp (node_key dp x) = Some ts" "19 \<le> length ts"
    by blast
  have at: "consum_at dp x = c" "time_at dp x = t" "tools_at dp x = ts"
    using c t ts by (simp_all add: consum_at_def time_at_def tools_at_def)
  let ?pd = "\<lparr>total_time = total_time pd + t, total_consum = total_consum pd + c,
              total_weight = total_consum pd + c + (\<Sum>i\<leftarrow>[0..<19]. merged ts (new_tools pd) ! i),
              new_tools = merged ts (new_tools pd)\<rparr>"
  let ?mp = "if length mp > 1 then mp @ ''-'' @ node_key dp x else node_key dp x"
  have step: "cost_loop dp (x # p) (mp, pd) = cost_loop dp p (?mp, ?pd)"
    using x c t ts merge_tools_19[OF ts(2) Cons.prems(2)]
    by (simp add: index_def lookup_def node_key_def Let_def)
  have len: "19 \<le> length (new_tools ?pd)" using Cons.prems(2) by simp
  have rest: "\<forall>x\<in>set p. x < length (node_id dp)" using Cons.prems(1) by simp
  show ?case
  proof (cases "p = []")
    case True
    then show ?thesis unfolding step by (simp add: at)
  next
    case False
    then show ?thesis
      unfolding step Cons.IH[OF rest len] by (simp add: at algebra_simps)
  qed
qed

lemma path_costs_closed:
  assumes "catalog_ok dp" "\<forall>x\<in>set p. x < length (node_id dp)" "p \<noteq> []"
  shows "path_costs dp p =
      Inr (my_path_of dp p,
           \<lparr>total_time = (\<Sum>x\<leftarrow>p. time_at dp x),
            total_consum = (\<Sum>x\<leftarrow>p. consum_at dp x),
            total_weight = (\<Sum>x\<leftarrow>p. consum_at dp x)
                           + (\<Sum>i\<leftarrow>[0..<19]. tools_fold dp p (replicate 20 0) ! i),
            new_tools = tools_fold dp p (replicate 20 0)\<rparr>)"
  unfolding path_costs_def my_path_of_def
  using cost_loop_closed[OF assms(1,2), of "\<lparr>total_time = 0, total_consum = 0, total_weight = 0,
                              new_tools = replicate 20 0\<rparr>" "[]"] assms(3)
  by simp

lemma hits_empty [simp]: "hits dp {} = {}"
  by (simp add: hits_def)

lemma hits_insert:
  "path_costs dp p = Inr (k, pd) \<Longrightarrow>
   hits dp (insert p S) = (if within_budget dp pd then insert (k, pd) (hits dp S) else hits dp S)"
  by (auto simp: hits_def)

lemma store_path_data:
  "segment_pathdata (store_path dp K (k, pd) st) =
     (if within_budget dp pd then AList.update k pd (segment_pathdata st) else segment_pathdata st)"
  by (auto simp: store_path_def within_budget_def Let_def)

lemma store_path_paths:
  "map_of (segment_paths (store_path dp K (k, pd) st)) K =
     Some (paths_for K st @ (if within_budget dp pd then [k] else []))"
  by (auto simp: store_path_def within_budget_def Let_def paths_for_def update_conv' split: option.splits)

lemma set_update_subset: "set (AList.update k v al) \<subseteq> insert (k, v) (set al)"
  by (induction al) auto

lemma keys_update: "fst ` set (AList.update k v al) = insert k (fst ` set al)"
  by (induction al) auto

lemma emit_path_ok:
  assumes "path_costs dp p = Inr r" "p \<noteq> []" "hd p = s" "last p = d"
    "s < length (node_id dp)" "d < length (node_id dp)"
  shows "emit_path dp p st = Inr (store_path dp (segment_key dp s d) r st)"
  using assms by (simp add: emit_path_def index_def segment_key_def)

lemma emit_all:
  assumes "catalog_ok dp" "s < length (node_id dp)" "d < length (node_id dp)"
  shows "\<forall>p\<in>set L. p \<noteq> [] \<and> hd p = s \<and> last p = d \<and> (\<forall>x\<in>set p. x < length (node_id dp)) \<Longrightarrow>
    \<exists>st'. for_each (emit_path dp) L st = Inr st'
       \<and> set (segment_pathdata st') \<subseteq> set (segment_pathdata st) \<union> hits dp (set L)
       \<and> fst ` set (segment_pathdata st') = fst ` set (segment_pathdata st) \<union> fst ` hits dp (set L)
       \<and> set (paths_for (segment_key dp s d) st') = set (paths_for (segment_key dp s d) st) \<union> fst ` hits dp (set L)
       \<and> (L \<noteq> [] \<longrightarrow> map_of (segment_paths st') (segment_key dp s d) \<noteq> None)
       \<and> (L = [] \<longrightarrow> st' = st)"
proof (induction L arbitrary: st)
  case Nil
  then show ?case by simp
next
  case (Cons p L)
  let ?K = "segment_key dp s d"
  from Cons.prems have p: "p \<noteq> []" "hd p = s" "last p = d" "\<forall>x\<in>set p. x < length (node_id dp)"
    by auto
  from path_costs_closed[OF assms(1) p(4) p(1)] obtain k pd where c: "path_costs dp p = Inr (k, pd)"
    by blast
  let ?st1 = "store_path dp ?K (k, pd) st"
  have e: "emit_path dp p st = Inr ?st1"
    by (rule emit_path_ok[OF c p(1,2,3) assms(2,3)])
  from Cons.prems have "\<forall>p\<in>set L. p \<noteq> [] \<and> hd p = s \<and> last p = d \<and> (\<forall>x\<in>set p. x < length (node_id dp))"
    by simp
  from Cons.IH[OF this, of ?st1] obtain st' where all:
    "for_each (emit_path dp) L ?st1 = Inr st'
     \<and> set (segment_pathdata st') \<subseteq> set (segment_pathdata ?st1) \<union> hits dp (set L)
     \<and> fst ` set (segment_pathdata st') = fst ` set (segment_pathdata ?st1) \<union> fst ` hits dp (set L)
     \<and> set (paths_for ?K st') = set (paths_for ?K ?st1) \<union> fst ` hits dp (set L)
     \<and> (L \<noteq> [] \<longrightarrow> map_of (segment_paths st') ?K \<noteq> None)
     \<and> (L = [] \<longrightarrow> st' = ?st1)"
    by (rule exE)
  note r = all[THEN conjunct1]
  note d1 = all[THEN conjunct2, THEN conjunct1]
  note d2 = all[THEN conjunct2, THEN conjunct2, THEN conjunct1]
  note d3 = all[THEN conjunct2, THEN conjunct2, THEN conjunct2, THEN conjunct1]
  note d4 = all[THEN conjunct2, THEN conjunct2, THEN conjunct2, THEN conjunct2, THEN conjunct1]
  note d5 = all[THEN conjunct2, THEN conjunct2, THEN conjunct2, THEN conjunct2, THEN conjunct2]
  have run: "for_each (emit_path dp) (p # L) st = Inr st'"
    using e r by simp
  have h: "hits dp (set (p # L)) = (if within_budget dp pd then insert (k, pd) (hits dp (set L)) else hits dp (set L))"
    using hits_insert[OF c] by simp
  have pf1: "set (paths_for ?K ?st1) = set (paths_for ?K st) \<union> (if within_budget dp pd then {k} else {})"
    unfolding paths_for_def[of ?K ?st1] store_path_paths by simp
  have g1: "set (segment_pathdata st') \<subseteq> set (segment_pathdata st) \<union> hits dp (set (p # L))"
    using d1 set_update_subset[of k pd "segment_pathdata st"] unfolding h store_path_data
    by (auto split: if_splits)
  have g2: "fst ` set (segment_pathdata st') = fst ` set (segment_pathdata st) \<union> fst ` hits dp (set (p # L))"
    unfolding d2 h store_path_data by (auto simp: keys_update)
  have g3: "set (paths_for ?K st') = set (paths_for ?K st) \<union> fst ` hits dp (set (p # L))"
    unfolding d3 pf1 h by auto
  have g4: "map_of (segment_paths st') ?K \<noteq> None"
  proof (cases "L = []")
    case True
    with d5 show ?thesis by (simp add: store_path_paths)
  next
    case False
    with d4 show ?thesis by simp
  qed
  have g5: "p # L = [] \<longrightarrow> st' = st" by simp
  show ?case
    by (intro exI[of _ st'] conjI) (fact run g1 g2 g3 g5 | (rule impI, rule g4))+
qed

lemma edge_in_range:
  assumes "graph_ok dp" "x < length (node_id dp)" "edge dp x y"
  shows "y < length (node_id dp)"
proof -
  from assms(1,2) have "case dp_g dp x of None \<Rightarrow> False | Some adj \<Rightarrow> \<forall>v\<in>set adj. v < length (node_id dp)"
    unfolding graph_ok_def by blast
  with assms(3) show ?thesis
    by (cases "dp_g dp x") (auto simp: edge_def)
qed

lemma walk_in_range:
  "graph_ok dp \<Longrightarrow> is_walk dp (x # r) \<Longrightarrow> x < length (node_id dp) \<Longrightarrow>
   \<forall>y\<in>set (x # r). y < length (node_id dp)"
proof (induction r arbitrary: x)
  case Nil
  then show ?case by simp
next
  case (Cons y r)
  from Cons.prems have e: "edge dp x y" and w: "is_walk dp (y # r)" by auto
  from edge_in_range[OF Cons.prems(1,3) e] have "y < length (node_id dp)" .
  from Cons.IH[OF Cons.prems(1) w this] Cons.prems(3) show ?case by simp
qed

lemma map_of_fresh: "map_of (fresh_visited n) x = (if x < n then Some False else None)"
proof -
  have "map_of (map (\<lambda>i. (i, False)) xs) x = (if x \<in> set xs then Some False else None)" for xs :: "nat list"
    by (induction xs) auto
  then show ?thesis by (simp add: fresh_visited_def)
qed

lemma dom_fresh: "dom (map_of (fresh_visited n)) = {..<n}"
  by (auto simp: map_of_fresh split: if_splits)

lemma open_paths_fresh:
  assumes "graph_ok dp" "s < length (node_id dp)"
  shows "open_paths dp d (fresh_visited (length (node_id dp))) s = {p. simple_path dp s d p}"
proof (intro set_eqI iffI)
  fix q assume "q \<in> open_paths dp d (fresh_visited (length (node_id dp))) s"
  then show "q \<in> {p. simple_path dp s d p}"
    by (simp add: open_paths_def simple_path_def)
next
  fix q assume "q \<in> {p. simple_path dp s d p}"
  then have q: "q \<noteq> []" "hd q = s" "last q = d" "distinct q" "is_walk dp q"
    by (simp_all add: simple_path_def)
  from q(1,2) have qs: "s # tl q = q" by (cases q) auto
  with q(5) have "is_walk dp (s # tl q)" by simp
  from walk_in_range[OF assms(1) this assms(2)] have "\<forall>x\<in>set (tl q). x < length (node_id dp)"
    by simp
  then have "\<forall>x\<in>set (tl q). map_of (fresh_visited (length (node_id dp))) x = Some False"
    by (simp add: map_of_fresh)
  with q show "q \<in> open_paths dp d (fresh_visited (length (node_id dp))) s"
    by (simp add: open_paths_def)
qed

lemma simple_path_range:
  assumes "graph_ok dp" "s < length (node_id dp)" "simple_path dp s d p"
  shows "\<forall>x\<in>set p. x < length (node_id dp)"
proof -
  from assms(3) have q: "p \<noteq> []" "hd p = s" "is_walk dp p" by (simp_all add: simple_path_def)
  from q(1,2) have qs: "s # tl p = p" by (cases p) auto
  with q(3) have "is_walk dp (s # tl p)" by simp
  from walk_in_range[OF assms(1) this assms(2)] qs show ?thesis by metis
qed

lemma print_all_paths_result:
  assumes "datapack_ok dp" "s < length (node_id dp)" "d < length (node_id dp)"
  shows "\<exists>st ws. print_all_paths dp s d = Inr st
          \<and> map_of (segment_paths st) (segment_key dp s d) = Some ws
          \<and> set ws = fst ` hits dp {p. simple_path dp s d p}
          \<and> fst ` set (segment_pathdata st) = fst ` hits dp {p. simple_path dp s d p}
          \<and> set (segment_pathdata st) \<subseteq> hits dp {p. simple_path dp s d p}"
proof -
  let ?n = "length (node_id dp)"
  let ?K = "segment_key dp s d"
  let ?SP = "{p. simple_path dp s d p}"
  let ?init = "\<lparr>segment_paths = [], segment_pathdata = []\<rparr>"
  from assms(1) have g: "graph_ok dp" and c: "catalog_ok dp" by (simp_all add: datapack_ok_def)
  from util_enumerates[OF g assms(2) dom_fresh, of d "[]"] obtain L where
    L: "\<forall>st'. print_all_paths_util dp s d (fresh_visited ?n) [] st' = for_each (emit_path dp) L st'"
      "set L = (@) ([] @ [s]) ` tl ` open_paths dp d (fresh_visited ?n) s"
    by blast
  have "(@) ([] @ [s]) ` tl ` ?SP = ?SP"
  proof -
    have "[s] @ tl p = p" if "simple_path dp s d p" for p
      using that by (cases p) (auto simp: simple_path_def)
    then show ?thesis by (auto simp: image_iff)
  qed
  with L(2) have setL: "set L = ?SP" by (simp add: open_paths_fresh[OF g assms(2)])
  have each: "\<forall>p\<in>set L. p \<noteq> [] \<and> hd p = s \<and> last p = d \<and> (\<forall>x\<in>set p. x < ?n)"
    unfolding setL using simple_path_range[OF g assms(2)] by (auto simp: simple_path_def)
  from emit_all[OF c assms(2,3) each, of ?init] obtain st' where all:
    "for_each (emit_path dp) L ?init = Inr st'
       \<and> set (segment_pathdata st') \<subseteq> set (segment_pathdata ?init) \<union> hits dp (set L)
       \<and> fst ` set (segment_pathdata st') = fst ` set (segment_pathdata ?init) \<union> fst ` hits dp (set L)
       \<and> set (paths_for ?K st') = set (paths_for ?K ?init) \<union> fst ` hits dp (set L)
       \<and> (L \<noteq> [] \<longrightarrow> map_of (segment_paths st') ?K \<noteq> None)
       \<and> (L = [] \<longrightarrow> st' = ?init)"
    by (rule exE)
  note r = all[THEN conjunct1]
  note d1 = all[THEN conjunct2, THEN conjunct1]
  note d2 = all[THEN conjunct2, THEN conjunct2, THEN conjunct1]
  note d3 = all[THEN conjunct2, THEN conjunct2, THEN conjunct2, THEN conjunct1]
  have util: "print_all_paths_util dp s d (fresh_visited ?n) [] ?init = Inr st'"
    using L(1) r by simp
  let ?fin = "if map_of (segment_paths st') ?K = None
             then st'\<lparr>segment_paths := AList.update ?K [] (segment_paths st')\<rparr> else st'"
  have res: "print_all_paths dp s d = Inr ?fin"
    using util assms(2,3) by (simp add: print_all_paths_def index_def segment_key_def Let_def)
  have data: "segment_pathdata ?fin = segment_pathdata st'" by simp
  have pf: "map_of (segment_paths ?fin) ?K = Some (paths_for ?K st')"
    by (auto simp: paths_for_def update_conv')
  have e0: "paths_for ?K ?init = []" "segment_pathdata ?init = []" by (simp_all add: paths_for_def)
  have g1: "set (paths_for ?K st') = fst ` hits dp ?SP" using d3 unfolding e0 setL by simp
  have g2: "fst ` set (segment_pathdata ?fin) = fst ` hits dp ?SP" using d2 unfolding e0 setL data by simp
  have g3: "set (segment_pathdata ?fin) \<subseteq> hits dp ?SP" using d1 unfolding e0 setL data by simp
  show ?thesis
    by (intro exI[of _ ?fin] exI[of _ "paths_for ?K st'"] conjI) (fact res pf g1 g2 g3)+
qed

lemma strip_start: "strip ''start'' = ''start''" "strip ''T1'' = ''T1''"
  by (simp_all add: strip_def is_space_def)

lemma scenarioA_ok: "datapack_ok scenarioA"
  by (simp add: datapack_ok_def graph_ok_def catalog_ok_def scenarioA_def node_key_def
      less_Suc_eq strip_start)

lemma scenarioA_run:
  "print_all_paths scenarioA 0 1 =
     Inr \<lparr>segment_paths = [(''start:T1'', [''start-T1''])],
          segment_pathdata = [(''start-T1'',
            \<lparr>total_time = 100, total_consum = 10, total_weight = 15,
             new_tools = 5 # replicate 19 0\<rparr>)]\<rparr>"
  by code_simp

text \<open>For known nodes \<open>s\<close> and \<open>d\<close> the walk runs the destination branch on exactly the
  simple paths from \<open>s\<close> to \<open>d\<close>, and the path texts listed under the key (the same
  texts that key the stored costs) are exactly the texts of the simple paths whose
  computed costs satisfy the three budgets.\<close>

lemma enumerator_texts_exact:
  assumes "datapack_ok dp" "s < length (node_id dp)" "d < length (node_id dp)"
  shows "\<exists>L st ws.
           set L = {p. simple_path dp s d p}
         \<and> (\<forall>st0. print_all_paths_util dp s d (fresh_visited (length (node_id dp))) [] st0
                   = for_each (emit_path dp) L st0)
         \<and> print_all_paths dp s d = Inr st
         \<and> map_of (segment_paths st) (segment_key dp s d) = Some ws
         \<and> set ws = fst ` set (segment_pathdata st)
         \<and> set ws = {k. \<exists>p pd. simple_path dp s d p \<and> path_costs dp p = Inr (k, pd)
                              \<and> within_budget dp pd}
         \<and> (\<forall>(k, pd) \<in> set (segment_pathdata st).
               within_budget dp pd
               \<and> (\<exists>p. simple_path dp s d p \<and> path_costs dp p = Inr (k, pd)))
         \<and> (\<forall>p. simple_path dp s d p \<longrightarrow>
               (\<exists>k pd. path_costs dp p = Inr (k, pd) \<and> (k \<notin> set ws \<longrightarrow> \<not> within_budget dp pd)))"
proof -
  let ?n = "length (node_id dp)"
  let ?SP = "{p. simple_path dp s d p}"
  from assms(1) have g: "graph_ok dp" and c: "catalog_ok dp" by (simp_all add: datapack_ok_def)
  from util_enumerates[OF g assms(2) dom_fresh, of d "[]"] obtain L where
    L: "\<forall>st'. print_all_paths_util dp s d (fresh_visited ?n) [] st' = for_each (emit_path dp) L st'"
      "set L = (@) ([] @ [s]) ` tl ` open_paths dp d (fresh_visited ?n) s"
    by blast
  have "(@) ([] @ [s]) ` tl ` ?SP = ?SP"
  proof -
    have "[s] @ tl p = p" if "simple_path dp s d p" for p
      using that by (cases p) (auto simp: simple_path_def)
    then show ?thesis by (auto simp: image_iff)
  qed
  with L(2) have setL: "set L = ?SP" by (simp add: open_paths_fresh[OF g assms(2)])
  from print_all_paths_result[OF assms] obtain st ws where all:
    "print_all_paths dp s d = Inr st
          \<and> map_of (segment_paths st) (segment_key dp s d) = Some ws
          \<and> set ws = fst ` hits dp ?SP
          \<and> fst ` set (segment_pathdata st) = fst ` hits dp ?SP
          \<and> set (segment_pathdata st) \<subseteq> hits dp ?SP"
    by blast
  note r1 = all[THEN conjunct1]
  note r2 = all[THEN conjunct2, THEN conjunct1]
  note r3 = all[THEN conjunct2, THEN conjunct2, THEN conjunct1]
  note r4 = all[THEN conjunct2, THEN conjunct2, THEN conjunct2, THEN conjunct1]
  note r5 = all[THEN conjunct2, THEN conjunct2, THEN conjunct2, THEN conjunct2]
  have a1: "set ws = fst ` set (segment_pathdata st)" using r3 r4 by simp
  have a2: "set ws = {k. \<exists>p pd. simple_path dp s d p \<and> path_costs dp p = Inr (k, pd) \<and> within_budget dp pd}"
    unfolding r3 hits_def by force
  have a3: "\<forall>(k, pd) \<in> set (segment_pathdata st).
               within_budget dp pd \<and> (\<exists>p. simple_path dp s d p \<and> path_costs dp p = Inr (k, pd))"
    using r5 unfolding hits_def by blast
  have a4: "\<forall>p. simple_path dp s d p \<longrightarrow>
               (\<exists>k pd. path_costs dp p = Inr (k, pd) \<and> (k \<notin> set ws \<longrightarrow> \<not> within_budget dp pd))"
  proof (intro allI impI)
    fix p assume p: "simple_path dp s d p"
    then have ne: "p \<noteq> []" by (simp add: simple_path_def)
    from path_costs_closed[OF c simple_path_range[OF g assms(2) p] ne]
    obtain k pd where kp: "path_costs dp p = Inr (k, pd)" by blast
    have "within_budget dp pd \<Longrightarrow> k \<in> set ws"
      unfolding a2 using p kp by blast
    with kp show "\<exists>k pd. path_costs dp p = Inr (k, pd) \<and> (k \<notin> set ws \<longrightarrow> \<not> within_budget dp pd)"
      by blast
  qed
  show ?thesis
    by (intro exI[of _ L] exI[of _ st] exI[of _ ws] conjI) (fact setL L(1) r1 r2 a1 a2 a3 a4)+
qed

text \<open>On scenario A, from \<^verbatim>\<open>start\<close> to \<^verbatim>\<open>T1\<close>, that set is the one text
  \<^verbatim>\<open>start-T1\<close>.\<close>

lemma scenarioA_stored_texts:
  "datapack_ok scenarioA
   \<and> {k. \<exists>p pd. simple_path scenarioA 0 1 p \<and> path_costs scenarioA p = Inr (k, pd)
                \<and> within_budget scenarioA pd} = {''start-T1''}"
proof -
  have n: "(0::nat) < length (node_id scenarioA)" "(1::nat) < length (node_id scenarioA)"
    by (simp_all add: scenarioA_def)
  have key: "segment_key scenarioA 0 1 = ''start:T1''"
    by (simp add: segment_key_def scenarioA_def)
  from enumerator_texts_exact[OF scenarioA_ok n] obtain st ws where
    r: "print_all_paths scenarioA 0 1 = Inr st"
    and w: "map_of (segment_paths st) (segment_key scenarioA 0 1) = Some ws"
    and e: "set ws = {k. \<exists>p pd. simple_path scenarioA 0 1 p \<and> path_costs scenarioA p = Inr (k, pd)
                \<and> within_budget scenarioA pd}"
    by blast
  from r have "segment_paths st = [(''start:T1'', [''start-T1''])]"
    unfolding scenarioA_run by auto
  with w key have "ws = [''start-T1'']" by simp
  with e scenarioA_ok show ?thesis by simp
qed

lemma two_targets_run:
  "print_all_paths two_targets 1 2 =
     Inr \<lparr>segment_paths = [(''N1:N2'', [''N1-N2''])],
          segment_pathdata = [(''N1-N2'',
            \<lparr>total_time = 100, total_consum = 10, total_weight = 10,
             new_tools = replicate 20 0\<rparr>)]\<rparr>"
  by code_simp

lemma scenarioB_run:
  "print_all_paths scenarioB 1 2 =
     Inr \<lparr>segment_paths = [(''A:B'', [''B''])],
          segment_pathdata = [(''B'',
            \<lparr>total_time = 100, total_consum = 10, total_weight = 10,
             new_tools = replicate 20 0\<rparr>)]\<rparr>"
  by code_simp

lemma three_letters_run:
  "print_all_paths three_letters 0 1 =
     Inr \<lparr>segment_paths = [(''A:B'', [''B'', ''B''])],
          segment_pathdata = [(''B'',
            \<lparr>total_time = 100, total_consum = 10, total_weight = 10,
             new_tools = replicate 20 0\<rparr>)]\<rparr>"
  by code_simp

lemma three_letters_paths:
  "simple_path three_letters 0 1 [0, 1]" "simple_path three_letters 0 1 [0, 2, 1]"
  by (simp_all add: simple_path_def edge_def three_letters_def)

lemma three_letters_costs:
  "node_costs_within three_letters [0, 1]" "node_costs_within three_letters [0, 2, 1]"
  by code_simp+

text \<open>Claim C1 fails on the code. From \<^verbatim>\<open>A\<close> to \<^verbatim>\<open>B\<close> there are two simple paths, the edge
  and the way through \<^verbatim>\<open>C\<close>, and both are far within the three budgets. The enumerator
  gives both the path text \<^verbatim>\<open>B\<close>: the key lists that text twice, and the costs are
  stored under it once, those of the second path over those of the first. The set of
  emitted paths is not the set of simple paths within budget.\<close>

theorem one_letter_paths_collapse:
  "simple_path three_letters 0 1 [0, 1] \<and> node_costs_within three_letters [0, 1]
   \<and> simple_path three_letters 0 1 [0, 2, 1] \<and> node_costs_within three_letters [0, 2, 1]
   \<and> map (node_key three_letters) [0, 1] = [''A'', ''B'']
   \<and> map (node_key three_letters) [0, 2, 1] = [''A'', ''C'', ''B'']
   \<and> print_all_paths three_letters 0 1 =
       Inr \<lparr>segment_paths = [(''A:B'', [''B'', ''B''])],
            segment_pathdata = [(''B'',
              \<lparr>total_time = 100, total_consum = 10, total_weight = 10,
               new_tools = replicate 20 0\<rparr>)]\<rparr>"
proof -
  have "map (node_key three_letters) [0, 1] = [''A'', ''B'']"
    "map (node_key three_letters) [0, 2, 1] = [''A'', ''C'', ''B'']"
    by (simp_all add: node_key_def three_letters_def strip_def is_space_def)
  then show ?thesis
    using three_letters_paths three_letters_costs three_letters_run by simp
qed


lemma stored_entries:
  assumes "datapack_ok dp" "s < length (node_id dp)" "d < length (node_id dp)"
  shows "\<exists>st. print_all_paths dp s d = Inr st
          \<and> (\<forall>(k, pd) \<in> set (segment_pathdata st).
                \<exists>p. simple_path dp s d p \<and> path_costs dp p = Inr (k, pd)
                  \<and> k = my_path_of dp p
                  \<and> total_time pd = (\<Sum>x\<leftarrow>p. time_at dp x)
                  \<and> total_consum pd = (\<Sum>x\<leftarrow>p. consum_at dp x)
                  \<and> total_weight pd = total_consum pd
                        + (\<Sum>i\<leftarrow>[0..<19]. new_tools pd ! i)
                  \<and> new_tools pd = tools_fold dp p (replicate 20 0))"
proof -
  from assms(1) have g: "graph_ok dp" and c: "catalog_ok dp" by (simp_all add: datapack_ok_def)
  from print_all_paths_result[OF assms] obtain st where
    r: "print_all_paths dp s d = Inr st"
    and sub: "set (segment_pathdata st) \<subseteq> hits dp {p. simple_path dp s d p}"
    by blast
  have "\<exists>p. simple_path dp s d p \<and> path_costs dp p = Inr (k, pd)
                  \<and> k = my_path_of dp p
                  \<and> total_time pd = (\<Sum>x\<leftarrow>p. time_at dp x)
                  \<and> total_consum pd = (\<Sum>x\<leftarrow>p. consum_at dp x)
                  \<and> total_weight pd = total_consum pd + (\<Sum>i\<leftarrow>[0..<19]. new_tools pd ! i)
                  \<and> new_tools pd = tools_fold dp p (replicate 20 0)"
    if "(k, pd) \<in> set (segment_pathdata st)" for k pd
  proof -
    from that sub obtain p where p: "simple_path dp s d p" and kp: "path_costs dp p = Inr (k, pd)"
      unfolding hits_def by blast
    from p have ne: "p \<noteq> []" by (simp add: simple_path_def)
    from path_costs_closed[OF c simple_path_range[OF g assms(2) p] ne] kp
    have k: "k = my_path_of dp p"
      and pd: "pd = \<lparr>total_time = (\<Sum>x\<leftarrow>p. time_at dp x),
            total_consum = (\<Sum>x\<leftarrow>p. consum_at dp x),
            total_weight = (\<Sum>x\<leftarrow>p. consum_at dp x)
                           + (\<Sum>i\<leftarrow>[0..<19]. tools_fold dp p (replicate 20 0) ! i),
            new_tools = tools_fold dp p (replicate 20 0)\<rparr>"
      by simp_all
    show ?thesis
      by (intro exI[of _ p] conjI p kp k) (simp_all add: pd)
  qed
  with r show ?thesis by blast
qed

section \<open>Python floats\<close>

text \<open>
  A Python float is an IEEE 754 binary64 number. A finite float is kept as the rational
  it denotes; the two zeros are not told apart, since no modelled operation divides by a
  float or reads the sign of a zero. Every arithmetic result is the exact result rounded
  to the nearest float, a tie to the one with the even significand.
\<close>

text \<open>A float: a finite number, one of the two infinities, or not a number.\<close>

datatype pyfloat = Fin rat | PInf | NInf | NaN

text \<open>\<^verbatim>\<open>round(x)\<close> of a finite float, and the rounding of \<^verbatim>\<open>"{:.0f}".format(x)\<close>: to the
  nearest integer, a tie to the even one.\<close>

definition py_round :: "rat \<Rightarrow> int" where
  "py_round x =
     (let f = \<lfloor>x\<rfloor>; r = x - of_int f
      in if r < 1 / 2 then f else if 1 / 2 < r then f + 1 else if even f then f else f + 1)"

text \<open>\<^verbatim>\<open>int(x)\<close> of a finite float: truncation toward zero.\<close>

definition py_int :: "rat \<Rightarrow> int" where
  "py_int x = (if x < 0 then \<lceil>x\<rceil> else \<lfloor>x\<rfloor>)"

text \<open>The number of binary digits of a positive integer.\<close>

function bit_length :: "int \<Rightarrow> int" where
  "bit_length n = (if n \<le> 0 then 0 else 1 + bit_length (n div 2))"
  by pat_completeness auto
termination
  by (relation "measure nat") auto

declare bit_length.simps [simp del]

text \<open>The power of two with an integer exponent.\<close>

function pow2 :: "int \<Rightarrow> rat" where
  "pow2 e = (if e = 0 then 1 else if 0 < e then 2 * pow2 (e - 1) else pow2 (e + 1) / 2)"
  by pat_completeness auto
termination
  by (relation "measure (\<lambda>e. nat \<bar>e\<bar>)") auto

declare pow2.simps [simp del]

text \<open>The exponent \<open>e\<close> with \<open>2\<^sup>e \<le> |x| < 2\<^sup>e\<^sup>+\<^sup>1\<close> of a number other than zero, from
  the bit lengths of numerator and denominator.\<close>

definition binade :: "rat \<Rightarrow> int" where
  "binade x =
     (let (p, q) = quotient_of \<bar>x\<bar>;
          e0 = bit_length p - bit_length q
      in if pow2 e0 \<le> \<bar>x\<bar> then e0 else e0 - 1)"

text \<open>The float nearest to a number, a tie to the even significand: 53 significant bits
  from the exponent of the number on, with the spacing \<open>2\<^sup>-\<^sup>1\<^sup>0\<^sup>7\<^sup>4\<close> of the
  subnormal range as the finest, and an infinity when the rounded value reaches
  \<open>2\<^sup>1\<^sup>0\<^sup>2\<^sup>4\<close>. This is \<^verbatim>\<open>float(s)\<close> for a text \<open>s\<close> that writes the number, the value
  of a float literal, and the rounding of every arithmetic result.\<close>

definition py_float :: "rat \<Rightarrow> pyfloat" where
  "py_float x =
     (if x = 0 then Fin 0
      else
       (let e = binade x;
            q = max (e - 52) (- 1074);
            m = py_round (\<bar>x\<bar> / pow2 q);
            y = of_int m * pow2 q
        in if 1024 \<le> e \<or> (e = 1023 \<and> m = 2 ^ 53) then (if 0 < x then PInf else NInf)
           else Fin (if 0 < x then y else - y)))"

text \<open>Float addition. It never raises: an overflow gives an infinity, the sum of the two
  opposite infinities is not a number.\<close>

fun fadd :: "pyfloat \<Rightarrow> pyfloat \<Rightarrow> pyfloat" where
  "fadd (Fin a) (Fin b) = py_float (a + b)"
| "fadd NaN y = NaN"
| "fadd x NaN = NaN"
| "fadd (Fin a) y = y"
| "fadd x (Fin b) = x"
| "fadd x y = (if x = y then x else NaN)"

text \<open>The sign of a float, 0 for zero.\<close>

definition fsign :: "pyfloat \<Rightarrow> int" where
  "fsign x = (case x of Fin a \<Rightarrow> (if 0 < a then 1 else if a < 0 then - 1 else 0)
              | PInf \<Rightarrow> 1 | NInf \<Rightarrow> - 1 | NaN \<Rightarrow> 0)"

text \<open>Float multiplication: an infinity times zero is not a number.\<close>

fun fmul :: "pyfloat \<Rightarrow> pyfloat \<Rightarrow> pyfloat" where
  "fmul (Fin a) (Fin b) = py_float (a * b)"
| "fmul NaN y = NaN"
| "fmul x NaN = NaN"
| "fmul x y = (if fsign x * fsign y = 0 then NaN else if 0 < fsign x * fsign y then PInf else NInf)"

text \<open>\<^verbatim>\<open>x > n\<close> for a float and an integer: Python compares the exact values, and every
  comparison with not-a-number is false.\<close>

fun fgt :: "pyfloat \<Rightarrow> int \<Rightarrow> bool" where
  "fgt (Fin a) n = (of_int n < a)"
| "fgt PInf n = True"
| "fgt NInf n = False"
| "fgt NaN n = False"

text \<open>\<^verbatim>\<open>x < y\<close> on two floats.\<close>

fun flt :: "pyfloat \<Rightarrow> pyfloat \<Rightarrow> bool" where
  "flt (Fin a) (Fin b) = (a < b)"
| "flt (Fin a) PInf = True"
| "flt NInf (Fin b) = True"
| "flt NInf PInf = True"
| "flt x y = False"

text \<open>The conversion of an integer operand of a float operation; it raises when the
  integer is too large.\<close>

definition float_of_int :: "int \<Rightarrow> pyerr + pyfloat" where
  "float_of_int n = (case py_float (of_int n) of Fin y \<Rightarrow> Inr (Fin y) | _ \<Rightarrow> Inl OverflowError)"

text \<open>\<^verbatim>\<open>a / b\<close> on two integers: the exact quotient rounded once.\<close>

definition int_truediv :: "int \<Rightarrow> int \<Rightarrow> pyerr + pyfloat" where
  "int_truediv a b =
     (if b = 0 then Inl ZeroDivisionError
      else case py_float (of_int a / of_int b) of Fin y \<Rightarrow> Inr (Fin y) | _ \<Rightarrow> Inl OverflowError)"

text \<open>\<^verbatim>\<open>d * x\<close> for an integer and a float.\<close>

definition int_times_float :: "int \<Rightarrow> pyfloat \<Rightarrow> pyerr + pyfloat" where
  "int_times_float d x = (case float_of_int d of Inl e \<Rightarrow> Inl e | Inr y \<Rightarrow> Inr (fmul y x))"

text \<open>\<^verbatim>\<open>round(x)\<close> on a float: it raises on an infinity and on not-a-number.\<close>

fun round_float :: "pyfloat \<Rightarrow> pyerr + int" where
  "round_float (Fin a) = Inr (py_round a)"
| "round_float NaN = Inl ValueError"
| "round_float x = Inl OverflowError"

text \<open>\<^verbatim>\<open>int(x)\<close> on a float: it raises on an infinity and on not-a-number.\<close>

fun int_of_float :: "pyfloat \<Rightarrow> pyerr + int" where
  "int_of_float (Fin a) = Inr (py_int a)"
| "int_of_float NaN = Inl ValueError"
| "int_of_float x = Inl OverflowError"

section \<open>Travel time and the recorded costs\<close>

text \<open>
  The enumerator's datapack holds no distances and no speed. Travel time is computed in
  one place, step 4 of \<^verbatim>\<open>generate_paths\<close>, for the detail line written for each
  assembled path. The record of the globals holds distances, height changes and fatigue
  factors as the numbers the input files write; the program holds the floats
  \<^verbatim>\<open>float(c_val)\<close>, \<^verbatim>\<open>float(h_val)\<close> and \<^verbatim>\<open>float(var[1])\<close> read from them.
\<close>

text \<open>The globals the travel time reads: \<^verbatim>\<open>ABN\<close> and \<^verbatim>\<open>delta_H\<close> keyed by
  \<^verbatim>\<open>from-to\<close>, the speed (an integer) and the two fatigue factors.\<close>

record travel_cfg =
  ABN :: "string \<rightharpoonup> rat"
  delta_H :: "string \<rightharpoonup> rat"
  adv_speed :: int
  ascend_fatigue :: rat
  descend_fatigue :: rat

text \<open>The travel time of step 4 for the move from \<^verbatim>\<open>last_node\<close> to \<^verbatim>\<open>node\<close>:
  \<^verbatim>\<open>int(round(float(ABN[key])))\<close> and \<^verbatim>\<open>int(round(float(delta_H[key])))\<close> (both zero for
  the key \<^verbatim>\<open>start-PA\<close>), the surcharge \<^verbatim>\<open>d * ascend_fatigue\<close> or \<^verbatim>\<open>d * descend_fatigue\<close>,
  and \<^verbatim>\<open>int((move_dist/adv_speed + vertical) + 0.051)\<close>, every operation on floats.\<close>

definition move_time :: "travel_cfg \<Rightarrow> string \<Rightarrow> string \<Rightarrow> pyerr + int" where
  "move_time cfg last_node node =
     (let key = last_node @ ''-'' @ node
      in case (if key = ''start-PA'' then Inr (0, 0)
               else (case lookup (ABN cfg) key of Inl e \<Rightarrow> Inl e | Inr ft \<Rightarrow>
                    (case round_float (py_float ft) of Inl e \<Rightarrow> Inl e | Inr move_dist \<Rightarrow>
                    (case lookup (delta_H cfg) key of Inl e \<Rightarrow> Inl e | Inr h \<Rightarrow>
                    (case round_float (py_float h) of Inl e \<Rightarrow> Inl e | Inr d \<Rightarrow>
                       Inr (move_dist, d)))))) of
           Inl e \<Rightarrow> Inl e
         | Inr (move_dist, d) \<Rightarrow>
             (case int_times_float d (py_float (if d > 0 then ascend_fatigue cfg
                                                else descend_fatigue cfg)) of
                Inl e \<Rightarrow> Inl e
              | Inr vertical \<Rightarrow>
                 (case int_truediv move_dist (adv_speed cfg) of
                    Inl e \<Rightarrow> Inl e
                  | Inr q \<Rightarrow> int_of_float (fadd (fadd q vertical) (py_float (51 / 1000))))))"

text \<open>The travel time as the specification states it: the floor of distance over speed
  plus surcharge plus 0.051, on the distance and height change as given, in exact
  arithmetic.\<close>

definition claimed_travel_time :: "travel_cfg \<Rightarrow> string \<Rightarrow> string \<Rightarrow> int" where
  "claimed_travel_time cfg a b =
     (let key = a @ ''-'' @ b;
          distance = (case ABN cfg key of None \<Rightarrow> 0 | Some x \<Rightarrow> x);
          delta_h = (case delta_H cfg key of None \<Rightarrow> 0 | Some x \<Rightarrow> x);
          vertical_surcharge = (if delta_h > 0 then delta_h * ascend_fatigue cfg
                                else delta_h * descend_fatigue cfg)
      in \<lfloor>distance / of_int (adv_speed cfg) + vertical_surcharge + 51 / 1000\<rfloor>)"




text \<open>One edge of 1 ft that rises one foot, at 1 ft/s and 0.949 s per foot of rise.\<close>

definition ascent_cfg :: travel_cfg where
  "ascent_cfg = \<lparr>ABN = [''A-B'' \<mapsto> 1], delta_H = [''A-B'' \<mapsto> 1], adv_speed = 1,
                  ascend_fatigue = 949 / 1000, descend_fatigue = 1 / 20\<rparr>"

text \<open>One level edge of 5.5 ft at 1 ft/s.\<close>

definition half_foot_cfg :: travel_cfg where
  "half_foot_cfg = \<lparr>ABN = [''A-B'' \<mapsto> 11 / 2], delta_H = [''A-B'' \<mapsto> 0], adv_speed = 1,
                     ascend_fatigue = 1 / 2, descend_fatigue = 1 / 20\<rparr>"

text \<open>Scenario A: 11 ft from \<^verbatim>\<open>start\<close> to \<^verbatim>\<open>T1\<close>, level, at 11 ft/s.\<close>

definition scenarioA_cfg :: travel_cfg where
  "scenarioA_cfg = \<lparr>ABN = [''start-T1'' \<mapsto> 11], delta_H = [''start-T1'' \<mapsto> 0], adv_speed = 11,
                     ascend_fatigue = 1 / 2, descend_fatigue = 1 / 20\<rparr>"

subsection \<open>What the enumerator records, and the travel time of an edge\<close>




lemma scenarioA_move_time: "move_time scenarioA_cfg ''start'' ''T1'' = Inr 1"
  by code_simp










text \<open>Claim C8 fails on scenario B. The walk from \<^verbatim>\<open>A\<close> to \<^verbatim>\<open>B\<close> stands on the simple path
  of the two nodes, but the path text it stores is \<^verbatim>\<open>B\<close>: the test
  \<^verbatim>\<open>len(my_path) > 1\<close> replaces a one-character text instead of extending it, so the
  stored path does not begin with the origin.\<close>

theorem one_letter_origin_dropped:
  "simple_path scenarioB 1 2 [1, 2]
   \<and> map (node_key scenarioB) [1, 2] = [''A'', ''B'']
   \<and> print_all_paths scenarioB 1 2 =
     Inr \<lparr>segment_paths = [(''A:B'', [''B''])],
          segment_pathdata = [(''B'',
            \<lparr>total_time = 100, total_consum = 10, total_weight = 10,
             new_tools = replicate 20 0\<rparr>)]\<rparr>"
proof -
  have "simple_path scenarioB 1 2 [1, 2]"
    by (simp add: simple_path_def edge_def scenarioB_def)
  moreover have "map (node_key scenarioB) [1, 2] = [''A'', ''B'']"
    by (simp add: node_key_def scenarioB_def strip_def is_space_def)
  ultimately show ?thesis using scenarioB_run by simp
qed




text \<open>The distance is rounded before it is divided: 5.5 ft count as 6 ft and the source
  writes 6, where the stated floor of 5.551 is 5.\<close>

lemma distance_rounded_first:
  "move_time half_foot_cfg ''A'' ''B'' = Inr 6 \<and> claimed_travel_time half_foot_cfg ''A'' ''B'' = 5"
proof -
  have "move_time half_foot_cfg ''A'' ''B'' = Inr 6" by code_simp
  moreover have "claimed_travel_time half_foot_cfg ''A'' ''B'' = 5" by code_simp
  ultimately show ?thesis by (intro conjI)
qed

text \<open>Rounding to floats shows in the result: for the ascent of one foot the three terms
  1, 0.949 and 0.051 add up to the float just below 2 and the source writes 1, where exact
  arithmetic gives 2.\<close>

lemma double_sum_below_two:
  "move_time ascent_cfg ''A'' ''B'' = Inr 1 \<and> claimed_travel_time ascent_cfg ''A'' ''B'' = 2"
proof -
  have "move_time ascent_cfg ''A'' ''B'' = Inr 1" by code_simp
  moreover have "claimed_travel_time ascent_cfg ''A'' ''B'' = 2" by code_simp
  ultimately show ?thesis by (intro conjI)
qed

section \<open>Segment reducer: step 1B of \<^verbatim>\<open>generate_paths\<close>\<close>

text \<open>
  Step 1B reads every segment file line by line and keeps two lists, \<^verbatim>\<open>fastest\<close> and
  \<^verbatim>\<open>lightest\<close>. A line of the file is an entry of the enumerator's second
  dictionary, the path text with its costs; the model takes the lines as these entries,
  the two numbers the loop compares being the total time and the consumables.
\<close>

text \<open>A line of a segment file.\<close>

type_synonym data_line = "string \<times> pathdata"

text \<open>One of the two tests of the loop body, for a line with value \<open>v\<close>: below the
  current limit the line is appended; when the list already has \<^verbatim>\<open>cutoff\<close> lines its
  last line is popped first (\<^verbatim>\<open>pop\<close> on an empty list raises) and the limit becomes
  \<open>v\<close>. The value is read with \<^verbatim>\<open>float()\<close> and compared as a float.\<close>

definition keep_step ::
  "int \<Rightarrow> int \<Rightarrow> data_line \<Rightarrow> data_line list \<times> pyfloat \<Rightarrow> pyerr + data_line list \<times> pyfloat" where
  "keep_step cutoff v x_line acc =
     (let (kept, limit) = acc
      in if flt (py_float (of_int v)) limit then
           (if int (length kept) \<ge> cutoff then
              (if kept = [] then Inl IndexError
               else Inr (butlast kept @ [x_line], py_float (of_int v)))
            else Inr (kept @ [x_line], limit))
         else Inr (kept, limit))"

text \<open>The loop over the lines of the file: the test on the time, then the test on the
  consumables.\<close>

fun reduce_loop ::
  "int \<Rightarrow> int \<Rightarrow> data_line list \<Rightarrow> (data_line list \<times> pyfloat) \<times> (data_line list \<times> pyfloat)
   \<Rightarrow> pyerr + (data_line list \<times> pyfloat) \<times> (data_line list \<times> pyfloat)" where
  "reduce_loop cutoff_fastest cutoff_lightest [] acc = Inr acc"
| "reduce_loop cutoff_fastest cutoff_lightest (x_line # content) (fast, light) =
     (case keep_step cutoff_fastest (total_time (snd x_line)) x_line fast of
        Inl e \<Rightarrow> Inl e
      | Inr fast' \<Rightarrow>
          (case keep_step cutoff_lightest (total_consum (snd x_line)) x_line light of
             Inl e \<Rightarrow> Inl e
           | Inr light' \<Rightarrow> reduce_loop cutoff_fastest cutoff_lightest content (fast', light')))"

text \<open>\<^verbatim>\<open>combo\<close>: the fastest lines, then the lightest lines that are not among them.\<close>

definition combine_lists :: "data_line list \<Rightarrow> data_line list \<Rightarrow> data_line list" where
  "combine_lists fastest lightest =
     fold (\<lambda>x_line combo. if x_line \<in> set combo then combo else combo @ [x_line]) lightest fastest"

text \<open>The reduction of one segment file; both limits start at \<^verbatim>\<open>float(999999)\<close>.\<close>

definition reduce_segment :: "int \<Rightarrow> int \<Rightarrow> data_line list \<Rightarrow> pyerr + data_line list" where
  "reduce_segment cutoff_fastest cutoff_lightest content =
     (case reduce_loop cutoff_fastest cutoff_lightest content (([], py_float 999999), ([], py_float 999999)) of
        Inl e \<Rightarrow> Inl e
      | Inr ((fastest, _), (lightest, _)) \<Rightarrow> Inr (combine_lists fastest lightest))"

text \<open>A line with the given path text, time and consumables.\<close>

definition mk_line :: "string \<Rightarrow> int \<Rightarrow> int \<Rightarrow> data_line" where
  "mk_line p t c = (p, \<lparr>total_time = t, total_consum = c, total_weight = c, new_tools = replicate 20 0\<rparr>)"

text \<open>Five paths from \<^verbatim>\<open>start\<close> to \<^verbatim>\<open>T1\<close> with distinct times and consumables, in the
  order of the file.\<close>

definition five_lines :: "data_line list" where
  "five_lines = [mk_line ''start-P1-T1'' 50 5, mk_line ''start-P2-T1'' 30 3, mk_line ''start-P3-T1'' 80 8,
                 mk_line ''start-P4-T1'' 10 1, mk_line ''start-P5-T1'' 40 4]"

subsection \<open>What the reducer keeps\<close>

text \<open>Claim C5 fails on the code. With both cutoffs 2 the reducer keeps the first line of
  the file (50 s, 5 lb) and the best line (10 s, 1 lb); the second fastest and second
  lightest line (30 s, 3 lb) is dropped. With both cutoffs 0 the first line raises
  \<^verbatim>\<open>IndexError\<close> (\<^verbatim>\<open>pop\<close> from the empty list) where all lines should be kept.\<close>

theorem reducer_misses_second_best:
  "reduce_segment 2 2 five_lines = Inr [mk_line ''start-P1-T1'' 50 5, mk_line ''start-P4-T1'' 10 1]
   \<and> reduce_segment 0 0 five_lines = Inl IndexError"
  by code_simp

section \<open>Scheduler: the queue loop of step 1A\<close>

text \<open>
  The coordinator walks \<^verbatim>\<open>queue\<close> again and again while \<^verbatim>\<open>queue\<close> or \<^verbatim>\<open>working\<close> is
  not empty; the workers it starts finish at any moment. The model is a step relation:
  one step is one pass of the \<^verbatim>\<open>for\<close> body, the restart of the \<^verbatim>\<open>for\<close> loop, or the
  end of one worker. Time stamps of log lines are left out.
\<close>

text \<open>What the loop reads: the known node identifiers, the number of processors and the
  working directory.\<close>

record sched_cfg =
  known_ids :: "string list"
  n_processors :: int
  current_directory :: string

text \<open>The lists of the loop, the path-data files of the workers that are running, and the
  position of the \<^verbatim>\<open>for\<close> loop in \<^verbatim>\<open>queue\<close>.\<close>

record sched_state =
  queue :: "string list"
  working :: "string list"
  ready4dict :: "string list"
  step1_log :: "string list"
  spawned :: "string list"
  pos :: nat

text \<open>\<^verbatim>\<open>k1\<close> and \<^verbatim>\<open>k2\<close>: the text before and after the first colon (with no colon,
  \<^verbatim>\<open>find\<close> gives -1: all but the last character, and the whole text).\<close>

definition key_ends :: "string \<Rightarrow> string \<times> string" where
  "key_ends my_segment =
     (if CHR '':'' \<in> set my_segment
      then (takeWhile (\<lambda>c. c \<noteq> CHR '':'') my_segment,
            tl (dropWhile (\<lambda>c. c \<noteq> CHR '':'') my_segment))
      else (butlast my_segment, my_segment))"

text \<open>\<^verbatim>\<open>k1 in node_id and k2 in node_id\<close>.\<close>

definition known :: "sched_cfg \<Rightarrow> string \<Rightarrow> bool" where
  "known cfg my_segment \<longleftrightarrow>
     fst (key_ends my_segment) \<in> set (known_ids cfg) \<and> snd (key_ends my_segment) \<in> set (known_ids cfg)"

text \<open>\<^verbatim>\<open>f_pathdata\<close>, the path-data file of a segment key.\<close>

definition pathdata_file :: "sched_cfg \<Rightarrow> string \<Rightarrow> string" where
  "pathdata_file cfg my_segment =
     current_directory cfg @ [CHR 0x5C] @ ''Path_Files'' @ [CHR 0x5C] @ ''PathData_''
       @ map (\<lambda>c. if c = CHR '':'' then CHR ''_'' else c) my_segment @ ''.txt''"

text \<open>The lines logged for an endpoint that is not a known node, each ending in a space
  and a newline.\<close>

definition skip_lines :: "sched_cfg \<Rightarrow> string \<Rightarrow> string list" where
  "skip_lines cfg my_segment =
     (if fst (key_ends my_segment) \<notin> set (known_ids cfg)
      then [fst (key_ends my_segment) @ '' is not in node_id - skipping '' @ [CHR 0x0A]] else [])
     @ (if snd (key_ends my_segment) \<notin> set (known_ids cfg)
        then [snd (key_ends my_segment) @ '' is not in node_id - skipping '' @ [CHR 0x0A]] else [])"

text \<open>The steps. \<open>spawn\<close> and \<open>skip\<close> are the \<^verbatim>\<open>for\<close> body with a free worker slot, for
  a key with known endpoints (a worker is started and the key leaves the queue) and for
  any other key (the log lines; the queue is not touched). \<open>busy\<close> is the body with no
  free slot. \<open>again\<close> restarts the \<^verbatim>\<open>for\<close> loop while \<^verbatim>\<open>queue or working\<close> holds.
  \<open>worker_done\<close> is the end of \<^verbatim>\<open>save_this_data\<close> in a worker. The indentation and the
  time stamp in front of the \<^verbatim>\<open>Finding paths\<close> line are left out.\<close>

inductive sched_step :: "sched_cfg \<Rightarrow> sched_state \<Rightarrow> sched_state \<Rightarrow> bool" for cfg where
  spawn:
    "pos st < length (queue st) \<Longrightarrow> my_segment = queue st ! pos st \<Longrightarrow>
     int (length (working st)) < n_processors cfg - 1 \<Longrightarrow> known cfg my_segment \<Longrightarrow>
     sched_step cfg st
       (st\<lparr>working := working st @ [pathdata_file cfg my_segment],
           step1_log := step1_log st @ [''Finding paths for '' @ my_segment @ [CHR 0x0A]],
           spawned := spawned st @ [pathdata_file cfg my_segment],
           queue := remove1 my_segment (queue st),
           pos := Suc (pos st)\<rparr>)"
| skip:
    "pos st < length (queue st) \<Longrightarrow> my_segment = queue st ! pos st \<Longrightarrow>
     int (length (working st)) < n_processors cfg - 1 \<Longrightarrow> \<not> known cfg my_segment \<Longrightarrow>
     sched_step cfg st
       (st\<lparr>working := working st @ [pathdata_file cfg my_segment],
           step1_log := step1_log st @ [''Finding paths for '' @ my_segment @ [CHR 0x0A]] @ skip_lines cfg my_segment,
           pos := Suc (pos st)\<rparr>)"
| busy:
    "pos st < length (queue st) \<Longrightarrow> \<not> int (length (working st)) < n_processors cfg - 1 \<Longrightarrow>
     sched_step cfg st (st\<lparr>pos := Suc (pos st)\<rparr>)"
| again:
    "length (queue st) \<le> pos st \<Longrightarrow> queue st \<noteq> [] \<or> working st \<noteq> [] \<Longrightarrow>
     sched_step cfg st (st\<lparr>pos := 0\<rparr>)"
| worker_done:
    "f \<in> set (spawned st) \<Longrightarrow>
     sched_step cfg st
       (st\<lparr>ready4dict := ready4dict st @ [f], working := remove1 f (working st),
           spawned := remove1 f (spawned st)\<rparr>)"

text \<open>The loop has ended: the \<^verbatim>\<open>for\<close> loop is through and \<^verbatim>\<open>queue\<close> and \<^verbatim>\<open>working\<close>
  are empty.\<close>

definition finished :: "sched_state \<Rightarrow> bool" where
  "finished st \<longleftrightarrow> length (queue st) \<le> pos st \<and> queue st = [] \<and> working st = []"

text \<open>The state before the loop, for the keys to evaluate.\<close>

definition start_state :: "string list \<Rightarrow> sched_state" where
  "start_state needed = \<lparr>queue = needed, working = [], ready4dict = [], step1_log = [],
                          spawned = [], pos = 0\<rparr>"

text \<open>A configuration with the two nodes of scenario A and four processors.\<close>

definition one_core :: sched_cfg where
  "one_core = \<lparr>known_ids = [''start'', ''T1''], n_processors = 4, current_directory = ''C:''\<rparr>"

subsection \<open>A key with an unknown endpoint\<close>

lemma step_keeps_unknown:
  assumes "sched_step cfg st st'" "k \<in> set (queue st)" "\<not> known cfg k"
  shows "k \<in> set (queue st')"
  using assms
proof (induction rule: sched_step.induct)
  case (spawn st my_segment)
  then have "k \<noteq> my_segment" by auto
  with spawn show ?case by simp
qed simp_all

lemma steps_keep_unknown:
  assumes "(sched_step cfg)\<^sup>*\<^sup>* st st'" "k \<in> set (queue st)" "\<not> known cfg k"
  shows "k \<in> set (queue st')"
  using assms by (induction rule: rtranclp_induct) (auto intro: step_keeps_unknown)

text \<open>Claim C9 fails on the code. A key with an endpoint that is not a known node is logged
  but never removed from \<^verbatim>\<open>queue\<close>: it is in the queue of every state the loop
  reaches, so the loop never ends.\<close>

theorem unknown_key_never_leaves_queue:
  assumes "k \<in> set needed" "\<not> known cfg k" "(sched_step cfg)\<^sup>*\<^sup>* (start_state needed) st"
  shows "k \<in> set (queue st) \<and> \<not> finished st"
proof -
  have "k \<in> set (queue (start_state needed))" using assms(1) by (simp add: start_state_def)
  from steps_keep_unknown[OF assms(3) this assms(2)] have "k \<in> set (queue st)" .
  then show ?thesis by (auto simp: finished_def)
qed

text \<open>The theorem after the first pass of the body on the key \<^verbatim>\<open>start:ZZ\<close>.\<close>

theorem unknown_key_never_leaves_queue_witness:
  "\<not> known one_core ''start:ZZ''
   \<and> sched_step one_core (start_state [''start:ZZ'', ''start:T1''])
        ((start_state [''start:ZZ'', ''start:T1''])
           \<lparr>working := [pathdata_file one_core ''start:ZZ''],
            step1_log := [''Finding paths for start:ZZ'' @ [CHR 0x0A],
                          ''ZZ is not in node_id - skipping '' @ [CHR 0x0A]],
            pos := 1\<rparr>)
   \<and> queue ((start_state [''start:ZZ'', ''start:T1''])
           \<lparr>working := [pathdata_file one_core ''start:ZZ''],
            step1_log := [''Finding paths for start:ZZ'' @ [CHR 0x0A],
                          ''ZZ is not in node_id - skipping '' @ [CHR 0x0A]],
            pos := 1\<rparr>) = [''start:ZZ'', ''start:T1'']
   \<and> \<not> finished ((start_state [''start:ZZ'', ''start:T1''])
           \<lparr>working := [pathdata_file one_core ''start:ZZ''],
            step1_log := [''Finding paths for start:ZZ'' @ [CHR 0x0A],
                          ''ZZ is not in node_id - skipping '' @ [CHR 0x0A]],
            pos := 1\<rparr>)"
proof -
  let ?s0 = "start_state [''start:ZZ'', ''start:T1'']"
  let ?s1 = "?s0\<lparr>working := [pathdata_file one_core ''start:ZZ''],
            step1_log := [''Finding paths for start:ZZ'' @ [CHR 0x0A],
                          ''ZZ is not in node_id - skipping '' @ [CHR 0x0A]],
            pos := 1\<rparr>"
  have ends: "key_ends ''start:ZZ'' = (''start'', ''ZZ'')" by (simp add: key_ends_def)
  have unk: "\<not> known one_core ''start:ZZ''"
    by (simp add: known_def ends one_core_def)
  have sk: "skip_lines one_core ''start:ZZ'' = [''ZZ is not in node_id - skipping '' @ [CHR 0x0A]]"
    by (simp add: skip_lines_def ends one_core_def)
  have "sched_step one_core ?s0
          (?s0\<lparr>working := working ?s0 @ [pathdata_file one_core ''start:ZZ''],
               step1_log := step1_log ?s0 @ [''Finding paths for '' @ ''start:ZZ'' @ [CHR 0x0A]]
                              @ skip_lines one_core ''start:ZZ'',
               pos := Suc (pos ?s0)\<rparr>)"
  proof (rule sched_step.skip)
    show "pos ?s0 < length (queue ?s0)" by (simp add: start_state_def)
    show "''start:ZZ'' = queue ?s0 ! pos ?s0" by (simp add: start_state_def)
    show "int (length (working ?s0)) < n_processors one_core - 1"
      by (simp add: start_state_def one_core_def)
    show "\<not> known one_core ''start:ZZ''" by (rule unk)
  qed
  then have st: "sched_step one_core ?s0 ?s1"
    by (simp add: sk start_state_def)
  then have reach: "(sched_step one_core)\<^sup>*\<^sup>* ?s0 ?s1" by (rule r_into_rtranclp)
  have mem: "''start:ZZ'' \<in> set [''start:ZZ'', ''start:T1'']" by simp
  from unknown_key_never_leaves_queue[OF mem unk reach]
  have "''start:ZZ'' \<in> set (queue ?s1) \<and> \<not> finished ?s1" .
  moreover have "queue ?s1 = [''start:ZZ'', ''start:T1'']" by (simp add: start_state_def)
  ultimately show ?thesis using unk st by blast
qed

section \<open>Mission assembler: \<^verbatim>\<open>perm\<close>\<close>

text \<open>
  \<^verbatim>\<open>perm\<close> receives a list of per-leg lists and works on a shallow copy of it. Python
  lists are objects of a store: a cell holds either a list of references (a list of
  lists) or a list of leg items, an address is a position of the store, a new list is
  appended to the store, and an assignment into a list or a deletion from it rewrites
  the cell of that list.
\<close>

text \<open>One of the three numbers in the bracket of an item, by what \<^verbatim>\<open>float()\<close> makes of its
  text: the text of an integer (as \<^verbatim>\<open>list2string\<close> and \<^verbatim>\<open>"{:.0f}".format\<close> write it,
  zero-filled), the texts \<^verbatim>\<open>inf\<close>, \<^verbatim>\<open>-inf\<close> and \<^verbatim>\<open>nan\<close>, or a text that \<^verbatim>\<open>float()\<close>
  refuses.\<close>

datatype field = Num int | Inf_text | Neg_inf_text | Nan_text | Bad_text

text \<open>An item of a per-leg list: the empty string, or the text
  \<^verbatim>\<open>[time,consumables,weight] <tools> path\<close> with its parts read.\<close>

datatype leg_item = Blank | Item field field field "int list" string

text \<open>\<^verbatim>\<open>float(values[k])\<close>.\<close>

fun read_field :: "field \<Rightarrow> pyerr + pyfloat" where
  "read_field (Num n) = Inr (py_float (of_int n))"
| "read_field Inf_text = Inr PInf"
| "read_field Neg_inf_text = Inr NInf"
| "read_field Nan_text = Inr NaN"
| "read_field Bad_text = Inl ValueError"

text \<open>\<^verbatim>\<open>"{:.0f}".format(x).zfill(width)\<close>: a finite float is written as the nearest
  integer. \<^verbatim>\<open>zfill\<close> puts zeros in front of \<^verbatim>\<open>inf\<close> and \<^verbatim>\<open>nan\<close> (after the sign of
  \<^verbatim>\<open>-inf\<close>) when the text is shorter than the width, and \<^verbatim>\<open>float()\<close> refuses the
  result.\<close>

fun format_field :: "nat \<Rightarrow> pyfloat \<Rightarrow> field" where
  "format_field width (Fin a) = Num (py_round a)"
| "format_field width PInf = (if width \<le> 3 then Inf_text else Bad_text)"
| "format_field width NInf = (if width \<le> 4 then Neg_inf_text else Bad_text)"
| "format_field width NaN = (if width \<le> 3 then Nan_text else Bad_text)"

text \<open>\<^verbatim>\<open>float(values1[k]) + float(values2[k])\<close>.\<close>

definition float_sum :: "field \<Rightarrow> field \<Rightarrow> pyerr + pyfloat" where
  "float_sum a b =
     (case read_field a of Inl e \<Rightarrow> Inl e | Inr x \<Rightarrow>
      (case read_field b of Inl e \<Rightarrow> Inl e | Inr y \<Rightarrow> Inr (fadd x y)))"

text \<open>A list object: a list of lists (of references) or a list of items.\<close>

datatype cell = Outer "nat list" | Inner "leg_item list"

text \<open>The store: the list objects, by address.\<close>

type_synonym heap = "cell list"

text \<open>The list of lists at an address.\<close>

definition outer_at :: "heap \<Rightarrow> nat \<Rightarrow> nat list option" where
  "outer_at h a = (if a < length h then (case h ! a of Outer xs \<Rightarrow> Some xs | Inner _ \<Rightarrow> None) else None)"

text \<open>The list of items at an address.\<close>

definition inner_at :: "heap \<Rightarrow> nat \<Rightarrow> leg_item list option" where
  "inner_at h a = (if a < length h then (case h ! a of Inner xs \<Rightarrow> Some xs | Outer _ \<Rightarrow> None) else None)"

text \<open>The loop \<^verbatim>\<open>for i in range(0, len(toolvalues1) - 1)\<close>: the larger value is kept in
  \<^verbatim>\<open>toolvalues2\<close>.\<close>

fun merge_toolvalues :: "nat list \<Rightarrow> int list \<Rightarrow> int list \<Rightarrow> pyerr + int list" where
  "merge_toolvalues [] toolvalues1 toolvalues2 = Inr toolvalues2"
| "merge_toolvalues (i # r) toolvalues1 toolvalues2 =
     (if length toolvalues1 \<le> i \<or> length toolvalues2 \<le> i then Inl IndexError
      else merge_toolvalues r toolvalues1
             (if toolvalues1 ! i > toolvalues2 ! i then toolvalues2[i := toolvalues1 ! i]
              else toolvalues2))"

text \<open>\<^verbatim>\<open>path1[path1.find("-"):]\<close>: the text from the first dash on; with no dash
  \<^verbatim>\<open>find\<close> gives -1 and the slice is the last character.\<close>

definition strip_first_node :: "string \<Rightarrow> string" where
  "strip_first_node path1 =
     (if CHR ''-'' \<in> set path1 then dropWhile (\<lambda>ch. ch \<noteq> CHR ''-'') path1
      else if path1 = [] then [] else [last path1])"

text \<open>The body of the two loops for one pair of items: times, consumables and total
  weights are added as floats and checked against the limits, the sums are written back
  with \<^verbatim>\<open>"{:.0f}".format\<close>, the tool values are merged, and the path of the later leg,
  without its first node, is appended to the path of the earlier leg. Parsing the empty
  string raises.\<close>

fun combine :: "leg_item \<Rightarrow> leg_item \<Rightarrow> int \<Rightarrow> int \<Rightarrow> int \<Rightarrow> pyerr + bool \<times> leg_item" where
  "combine (Item t1 c1 w1 toolvalues1 path1) (Item t2 c2 w2 toolvalues2 path2) t c nc =
     (case float_sum t1 t2 of Inl e \<Rightarrow> Inl e | Inr new_ET \<Rightarrow>
     (case float_sum c1 c2 of Inl e \<Rightarrow> Inl e | Inr new_consum \<Rightarrow>
     (case float_sum w1 w2 of Inl e \<Rightarrow> Inl e | Inr new_nonconsum \<Rightarrow>
     (let valid = \<not> (fgt new_ET t \<or> fgt new_consum c \<or> fgt new_nonconsum nc)
      in case merge_toolvalues [0..<length toolvalues1 - 1] toolvalues1 toolvalues2 of
           Inl e \<Rightarrow> Inl e
         | Inr tv \<Rightarrow> Inr (valid, Item (format_field 5 new_ET) (format_field 3 new_consum)
                                    (format_field 3 new_nonconsum) tv
                                    (path2 @ strip_first_node path1))))))"
| "combine _ _ t c nc = Inl ValueError"

text \<open>The loop over \<^verbatim>\<open>list1\<close> for one \<^verbatim>\<open>item2\<close>: a valid combination is appended to
  \<^verbatim>\<open>new_list\<close>, any other is written to the invalid-paths file.\<close>

fun inner_loop ::
  "int \<Rightarrow> int \<Rightarrow> int \<Rightarrow> leg_item \<Rightarrow> leg_item list \<Rightarrow> leg_item list \<times> leg_item list
   \<Rightarrow> pyerr option \<times> leg_item list \<times> leg_item list" where
  "inner_loop t c nc item2 [] (new_list, invalid) = (None, new_list, invalid)"
| "inner_loop t c nc item2 (item1 # list1) (new_list, invalid) =
     (case combine item1 item2 t c nc of
        Inl e \<Rightarrow> (Some e, new_list, invalid)
      | Inr (valid, new_item) \<Rightarrow>
          inner_loop t c nc item2 list1
            (if valid then (new_list @ [new_item], invalid) else (new_list, invalid @ [new_item])))"

text \<open>The loop over \<^verbatim>\<open>list2\<close>.\<close>

fun outer_loop ::
  "int \<Rightarrow> int \<Rightarrow> int \<Rightarrow> leg_item list \<Rightarrow> leg_item list \<Rightarrow> leg_item list \<times> leg_item list
   \<Rightarrow> pyerr option \<times> leg_item list \<times> leg_item list" where
  "outer_loop t c nc [] list1 acc = (None, acc)"
| "outer_loop t c nc (item2 # list2) list1 acc =
     (case inner_loop t c nc item2 list1 acc of
        (Some e, acc') \<Rightarrow> (Some e, acc')
      | (None, acc') \<Rightarrow> outer_loop t c nc list2 list1 acc')"

text \<open>\<^verbatim>\<open>len(result)\<close>.\<close>

definition outer_len :: "heap \<Rightarrow> nat \<Rightarrow> nat" where
  "outer_len h a = (case outer_at h a of None \<Rightarrow> 0 | Some xs \<Rightarrow> length xs)"

text \<open>Writing a list of items into a cell leaves every list of lists that is read
  afterwards as it was.\<close>

lemma outer_at_update_inner:
  "outer_at (h[na := Inner v]) ra = Some res1 \<Longrightarrow> outer_at h ra = Some res1"
  by (cases "ra = na") (auto simp: outer_at_def split: if_splits cell.splits)

text \<open>One round of the loop shortens \<^verbatim>\<open>result\<close>.\<close>

lemma outer_len_after:
  assumes "outer_at (h[na := Inner v]) ra = Some res1" "1 < length res1"
  shows "outer_len (((h[na := Inner v]) @ [Inner v])[ra := Outer (butlast (res1[length res1 - 2 := ca])), na := Inner []]) ra
         < outer_len h ra"
proof -
  from assms(1) have ne: "ra \<noteq> na" and lt: "ra < length h"
    by (auto simp: outer_at_def split: if_splits cell.splits)
  from outer_at_update_inner[OF assms(1)] have "outer_len h ra = length res1"
    by (simp add: outer_len_def)
  moreover have "outer_len (((h[na := Inner v]) @ [Inner v])[ra := Outer (butlast (res1[length res1 - 2 := ca])), na := Inner []]) ra
      = length res1 - 1"
    using ne lt by (simp add: outer_len_def outer_at_def nth_append)
  ultimately show ?thesis using assms(2) by simp
qed

text \<open>The loop \<^verbatim>\<open>while n > 1\<close>, with \<^verbatim>\<open>result\<close> at address \<open>ra\<close> and \<^verbatim>\<open>new_list\<close> at
  address \<open>na\<close>: the last two lists are combined into \<^verbatim>\<open>new_list\<close>, a copy of
  \<^verbatim>\<open>new_list\<close> is allocated and stored in the place of the next to last list, the last
  list is deleted from \<^verbatim>\<open>result\<close> and \<^verbatim>\<open>new_list\<close> is cleared. The result is the value
  returned or the exception, the store, and the lines of the invalid-paths file.\<close>

function perm_while ::
  "int \<Rightarrow> int \<Rightarrow> int \<Rightarrow> nat \<Rightarrow> nat \<Rightarrow> nat \<times> heap \<times> leg_item list
   \<Rightarrow> (pyerr + nat) \<times> heap \<times> leg_item list" where
  "perm_while t c nc ra na (n, h, invalid) =
     (if \<not> 1 < n then (Inr ra, h, invalid)
      else
       (case outer_at h ra of None \<Rightarrow> (Inl TypeError, h, invalid) | Some res \<Rightarrow>
       (if length res < 2 then (Inl IndexError, h, invalid)
        else
        (case inner_at h (last res) of None \<Rightarrow> (Inl TypeError, h, invalid) | Some list1 \<Rightarrow>
        (case inner_at h (res ! (length res - 2)) of None \<Rightarrow> (Inl TypeError, h, invalid) | Some list2 \<Rightarrow>
        (case inner_at h na of None \<Rightarrow> (Inl TypeError, h, invalid) | Some new_list \<Rightarrow>
        (case outer_loop t c nc list2 list1 (new_list, invalid) of
           (Some e, new_list', invalid') \<Rightarrow> (Inl e, h[na := Inner new_list'], invalid')
         | (None, new_list', invalid') \<Rightarrow>
            (case outer_at (h[na := Inner new_list']) ra of
               None \<Rightarrow> (Inl TypeError, h[na := Inner new_list'], invalid')
             | Some res1 \<Rightarrow>
                (if 1 < length res1 then
                   perm_while t c nc ra na
                     (length res1 - 1,
                      ((h[na := Inner new_list']) @ [Inner new_list'])
                        [ra := Outer (butlast (res1[length res1 - 2 := length h])),
                         na := Inner []],
                      invalid')
                 else (Inr ra, h[na := Inner new_list'], invalid'))))))))))"
  by pat_completeness auto
termination
  by (relation "measure (\<lambda>(t, c, nc, ra, na, n, h, invalid). outer_len h ra)")
     (auto intro: outer_len_after)

declare perm_while.simps [simp del]

text \<open>The first loop of \<^verbatim>\<open>perm\<close>: is one of the per-leg lists empty?\<close>

fun some_empty :: "heap \<Rightarrow> nat list \<Rightarrow> pyerr + bool" where
  "some_empty h [] = Inr False"
| "some_empty h (a # r) =
     (case inner_at h a of None \<Rightarrow> Inl TypeError
      | Some my_segment \<Rightarrow> if my_segment = [] then Inr True else some_empty h r)"

text \<open>\<^verbatim>\<open>perm(scenario, t, c, nc)\<close>: \<^verbatim>\<open>result = scenario.copy()\<close> allocates a list with the
  same references; an empty leg returns a new empty list; a last list that begins with
  the empty string is deleted from \<^verbatim>\<open>result\<close>; \<^verbatim>\<open>new_list\<close> is allocated, and the loop
  runs.\<close>

definition perm :: "heap \<Rightarrow> nat \<Rightarrow> int \<Rightarrow> int \<Rightarrow> int \<Rightarrow> (pyerr + nat) \<times> heap \<times> leg_item list" where
  "perm h scenario t c nc =
     (case outer_at h scenario of None \<Rightarrow> (Inl TypeError, h, []) | Some xs \<Rightarrow>
      (let ra = length h; h1 = h @ [Outer xs]
       in case some_empty h1 xs of
            Inl e \<Rightarrow> (Inl e, h1, [])
          | Inr True \<Rightarrow> (Inr (length h1), h1 @ [Outer []], [])
          | Inr False \<Rightarrow>
             if xs = [] then (Inl IndexError, h1, [])
             else
              (case inner_at h1 (last xs) of None \<Rightarrow> (Inl TypeError, h1, []) | Some last_list \<Rightarrow>
               if last_list = [] then (Inl IndexError, h1, [])
               else
                (let h2 = (if hd last_list = Blank then h1[ra := Outer (butlast xs)] else h1)
                 in perm_while t c nc ra (length h2) (length xs, h2 @ [Inner []], [])))))"

text \<open>A path from \<^verbatim>\<open>start\<close> to \<^verbatim>\<open>AA\<close> as the enumerator costs it: 50 s, 10 lb of
  consumables, a tool of 5 lb, total weight 15 lb.\<close>

definition leg_start_AA :: leg_item where
  "leg_start_AA = Item (Num 50) (Num 10) (Num 15) (5 # replicate 19 0) '', start-AA''"

text \<open>A path from \<^verbatim>\<open>AA\<close> to \<^verbatim>\<open>BB\<close>: 100 s, 10 lb of consumables, the same tool, total
  weight 15 lb.\<close>

definition leg_AA_BB :: leg_item where
  "leg_AA_BB = Item (Num 100) (Num 10) (Num 15) (5 # replicate 19 0) '', AA-BB''"

text \<open>A store with a scenario of two legs at address 2.\<close>

definition two_leg_heap :: heap where
  "two_leg_heap = [Inner [leg_start_AA], Inner [leg_AA_BB], Outer [0, 1]]"

subsection \<open>Properties of the assembler\<close>

lemma two_leg_run:
  "perm two_leg_heap 2 2222 333 444 =
     (Inr 3,
      two_leg_heap @ [Outer [5], Inner [], Inner [Item (Num 150) (Num 20) (Num 30) (5 # replicate 19 0) '', start-AA-BB'']],
      [])"
  by code_simp

lemma perm_while_frame:
  "base \<le> ra \<Longrightarrow> base \<le> na \<Longrightarrow> base \<le> length h \<Longrightarrow>
   take base (fst (snd (perm_while t c nc ra na (n, h, out)))) = take base h"
proof (induction t c nc ra na "(n, h, out)" arbitrary: n h out rule: perm_while.induct)
  case (1 t c nc ra na n h invalid)
  show ?case
  proof (cases "1 < n")
    case False
    then show ?thesis by (simp add: perm_while.simps)
  next
    case n: True
    show ?thesis
    proof (cases "outer_at h ra")
      case None
      then show ?thesis using n by (simp add: perm_while.simps)
    next
      case (Some res)
      show ?thesis
      proof (cases "length res < 2")
        case True
        then show ?thesis using n Some by (simp add: perm_while.simps)
      next
        case len: False
        show ?thesis
        proof (cases "inner_at h (last res)")
          case None
          then show ?thesis using n Some len by (simp add: perm_while.simps)
        next
          case l1: (Some list1)
          show ?thesis
          proof (cases "inner_at h (res ! (length res - 2))")
            case None
            then show ?thesis using n Some len l1 by (simp add: perm_while.simps)
          next
            case l2: (Some list2)
            show ?thesis
            proof (cases "inner_at h na")
              case None
              then show ?thesis using n Some len l1 l2 by (simp add: perm_while.simps)
            next
              case nl: (Some new_list)
              obtain e new_list' invalid' where ol:
                "outer_loop t c nc list2 list1 (new_list, invalid) = (e, new_list', invalid')"
                by (cases "outer_loop t c nc list2 list1 (new_list, invalid)") auto
              let ?h1 = "h[na := Inner new_list']"
              have t1: "take base ?h1 = take base h" using "1.prems"(2) by simp
              show ?thesis
              proof (cases e)
                case (Some err)
                then show ?thesis
                  using n \<open>outer_at h ra = Some res\<close> len l1 l2 nl ol t1
                  by (simp add: perm_while.simps)
              next
                case e: None
                show ?thesis
                proof (cases "outer_at ?h1 ra")
                  case None
                  then show ?thesis
                    using n \<open>outer_at h ra = Some res\<close> len l1 l2 nl ol e t1
                    by (simp add: perm_while.simps)
                next
                  case r1: (Some res1)
                  show ?thesis
                  proof (cases "1 < length res1")
                    case False
                    then show ?thesis
                      using n \<open>outer_at h ra = Some res\<close> len l1 l2 nl ol e r1 t1
                      by (simp add: perm_while.simps)
                  next
                    case True
                    let ?h4 = "(?h1 @ [Inner new_list'])[ra := Outer (butlast (res1[length res1 - 2 := length h])), na := Inner []]"
                    have t4: "take base ?h4 = take base h"
                      using "1.prems" by simp
                    have l4: "base \<le> length ?h4" using "1.prems"(3) by simp
                    have eq: "perm_while t c nc ra na (n, h, invalid)
                              = perm_while t c nc ra na (length res1 - 1, ?h4, invalid')"
                      using n \<open>outer_at h ra = Some res\<close> len l1 l2 nl ol e r1 True
                      by (subst perm_while.simps) simp
                    have "take base (fst (snd (perm_while t c nc ra na (length res1 - 1, ?h4, invalid')))) = take base ?h4"
                      using len
                      by (intro "1.hyps"[OF _ \<open>outer_at h ra = Some res\<close> _ l1 l2 nl _ _ _ r1 True "1.prems"(1,2) l4])
                         (use n ol e in auto)
                    with eq t4 show ?thesis by simp
                  qed
                qed
              qed
            qed
          qed
        qed
      qed
    qed
  qed
qed

lemma merge_toolvalues_gen:
  "distinct js \<Longrightarrow> \<forall>i\<in>set js. i < length tv1 \<and> i < length tv2 \<Longrightarrow>
   merge_toolvalues js tv1 tv2 =
     Inr (map (\<lambda>j. if j \<in> set js then max (tv1 ! j) (tv2 ! j) else tv2 ! j) [0..<length tv2])"
proof (induction js arbitrary: tv2)
  case Nil
  then show ?case by (simp add: map_nth)
next
  case (Cons i js)
  let ?tv = "tv2[i := max (tv1 ! i) (tv2 ! i)]"
  have upd: "(if tv1 ! i > tv2 ! i then tv2[i := tv1 ! i] else tv2) = ?tv"
    by (auto simp: max_def)
  have len: "i < length tv1" "i < length tv2" using Cons.prems by auto
  have rest: "\<forall>k\<in>set js. k < length tv1 \<and> k < length ?tv" using Cons.prems by auto
  have dj: "distinct js" "i \<notin> set js" using Cons.prems by auto
  have m1: "map (\<lambda>j. if j \<in> set js then max (tv1 ! j) (?tv ! j) else ?tv ! j) [0..<length ?tv]
          = map (\<lambda>j. if j \<in> set (i # js) then max (tv1 ! j) (tv2 ! j) else tv2 ! j) [0..<length tv2]"
    using len dj by (auto simp: nth_list_update)
  have "merge_toolvalues (i # js) tv1 tv2 = merge_toolvalues js tv1 ?tv"
    using len upd by simp
  also have "\<dots> = Inr (map (\<lambda>j. if j \<in> set js then max (tv1 ! j) (?tv ! j) else ?tv ! j) [0..<length ?tv])"
    by (rule Cons.IH[OF dj(1) rest])
  finally show ?case by (simp only: m1)
qed

lemma combine_items:
  assumes "length tv1 \<le> Suc (length tv2)"
    and "float_sum t1 t2 = Inr new_ET" and "float_sum c1 c2 = Inr new_consum"
    and "float_sum w1 w2 = Inr new_nonconsum"
  shows "combine (Item t1 c1 w1 tv1 path1) (Item t2 c2 w2 tv2 path2) t c nc =
     Inr (\<not> (fgt new_ET t \<or> fgt new_consum c \<or> fgt new_nonconsum nc),
          Item (format_field 5 new_ET) (format_field 3 new_consum) (format_field 3 new_nonconsum)
            (map (\<lambda>j. if j < length tv1 - 1 then max (tv1 ! j) (tv2 ! j) else tv2 ! j) [0..<length tv2])
            (path2 @ strip_first_node path1))"
proof -
  have a: "\<forall>i\<in>set [0..<length tv1 - 1]. i < length tv1 \<and> i < length tv2"
    using assms(1) by auto
  show ?thesis
    using merge_toolvalues_gen[OF distinct_upt a] assms(2-4) by (simp add: Let_def)
qed

lemma enumerator_tools:
  assumes "datapack_ok dp" "s < length (node_id dp)" "d < length (node_id dp)"
  shows "\<exists>st. print_all_paths dp s d = Inr st
          \<and> (\<forall>(k, pd) \<in> set (segment_pathdata st).
                \<exists>p. simple_path dp s d p \<and> path_costs dp p = Inr (k, pd)
                  \<and> length (new_tools pd) = 20
                  \<and> (\<forall>i<19. new_tools pd ! i = Max (insert 0 ((\<lambda>x. tools_at dp x ! i) ` set p)))
                  \<and> total_weight pd = total_consum pd + sum_list (new_tools pd))"
proof -
  from stored_entries[OF assms] obtain st where r: "print_all_paths dp s d = Inr st"
    and e: "\<forall>(k, pd) \<in> set (segment_pathdata st).
                \<exists>p. simple_path dp s d p \<and> path_costs dp p = Inr (k, pd)
                  \<and> k = my_path_of dp p
                  \<and> total_time pd = (\<Sum>x\<leftarrow>p. time_at dp x)
                  \<and> total_consum pd = (\<Sum>x\<leftarrow>p. consum_at dp x)
                  \<and> total_weight pd = total_consum pd + (\<Sum>i\<leftarrow>[0..<19]. new_tools pd ! i)
                  \<and> new_tools pd = tools_fold dp p (replicate 20 0)"
    by blast
  have props: "length (new_tools pd) = 20
      \<and> (\<forall>i<19. new_tools pd ! i = Max (insert 0 ((\<lambda>x. tools_at dp x ! i) ` set p)))
      \<and> total_weight pd = total_consum pd + sum_list (new_tools pd)"
    if nt: "new_tools pd = tools_fold dp p (replicate 20 0)"
      and tw: "total_weight pd = total_consum pd + (\<Sum>i\<leftarrow>[0..<19]. new_tools pd ! i)"
    for pd p
  proof -
    have len: "length (new_tools pd) = 20" using nt by simp
    have mx: "new_tools pd ! i = Max (insert 0 ((\<lambda>x. tools_at dp x ! i) ` set p))" if "i < 19" for i
    proof -
      have "new_tools pd ! i = fold max (map (\<lambda>x. tools_at dp x ! i) p) 0"
        using that nt tools_fold_nth[of i "replicate 20 0" dp p] by simp
      also have "\<dots> = Max (set (0 # map (\<lambda>x. tools_at dp x ! i) p))"
        by (simp only: Max.set_eq_fold)
      finally show ?thesis by simp
    qed
    have last0: "new_tools pd ! 19 = 0"
      using nt tools_fold_nth[of 19 "replicate 20 0" dp p] by simp
    have "sum_list (new_tools pd) = (\<Sum>i\<leftarrow>[0..<20]. new_tools pd ! i)"
      using len by (metis map_nth)
    also have "[0..<20] = [0..<19] @ [19::nat]" by (simp add: upt_rec)
    finally have "sum_list (new_tools pd) = (\<Sum>i\<leftarrow>[0..<19]. new_tools pd ! i)"
      using last0 by simp
    with tw len mx show ?thesis by simp
  qed
  from e props have "\<forall>(k, pd) \<in> set (segment_pathdata st).
                \<exists>p. simple_path dp s d p \<and> path_costs dp p = Inr (k, pd)
                  \<and> length (new_tools pd) = 20
                  \<and> (\<forall>i<19. new_tools pd ! i = Max (insert 0 ((\<lambda>x. tools_at dp x ! i) ` set p)))
                  \<and> total_weight pd = total_consum pd + sum_list (new_tools pd)"
    by fast
  with r show ?thesis by blast
qed

lemma take_prefix_same:
  assumes "take (length h) h' = h"
  shows "outer_at h' a = (if a < length h then outer_at h a else outer_at h' a)"
    and "inner_at h' a = (if a < length h then inner_at h a else inner_at h' a)"
proof -
  have "length (take (length h) h') = length h"
    using assms by (rule arg_cong)
  then have len: "length h \<le> length h'" by simp
  have nth: "h' ! a = h ! a" if "a < length h"
    using that assms by (metis nth_take)
  show "outer_at h' a = (if a < length h then outer_at h a else outer_at h' a)"
    using len nth by (auto simp: outer_at_def)
  show "inner_at h' a = (if a < length h then inner_at h a else inner_at h' a)"
    using len nth by (auto simp: inner_at_def)
qed

lemma perm_prefix: "take (length h) (fst (snd (perm h scenario t c nc))) = h"
proof (cases "outer_at h scenario")
  case None
  then show ?thesis by (simp add: perm_def)
next
  case (Some xs)
  let ?h1 = "h @ [Outer xs]"
  show ?thesis
  proof (cases "some_empty ?h1 xs")
    case (Inl e)
    then show ?thesis using Some by (simp add: perm_def)
  next
    case (Inr b)
    show ?thesis
    proof (cases b)
      case True
      then show ?thesis using Some Inr by (simp add: perm_def)
    next
      case False
      show ?thesis
      proof (cases "xs = []")
        case True
        then show ?thesis using Some Inr False by (simp add: perm_def)
      next
        case ne: False
        show ?thesis
        proof (cases "inner_at ?h1 (last xs)")
          case None
          then show ?thesis using Some Inr False ne by (simp add: perm_def)
        next
          case ll: (Some last_list)
          show ?thesis
          proof (cases "last_list = []")
            case True
            then show ?thesis using Some Inr False ne ll by (simp add: perm_def)
          next
            case lne: False
            let ?h2 = "if hd last_list = Blank then ?h1[length h := Outer (butlast xs)] else ?h1"
            have len2: "length ?h2 = Suc (length h)" by simp
            have t2: "take (length h) (?h2 @ [Inner []]) = h" by simp
            have eq: "perm h scenario t c nc
                      = perm_while t c nc (length h) (length ?h2) (length xs, ?h2 @ [Inner []], [])"
              using Some Inr False ne ll lne by (simp add: perm_def Let_def)
            have "take (length h) (fst (snd (perm_while t c nc (length h) (length ?h2)
                      (length xs, ?h2 @ [Inner []], []))))
                  = take (length h) (?h2 @ [Inner []])"
              by (rule perm_while_frame) simp_all
            with eq t2 show ?thesis by simp
          qed
        qed
      qed
    qed
  qed
qed

text \<open>Claim C10. Whatever \<^verbatim>\<open>perm\<close> returns or raises, every list that existed before the
  call is unchanged after it: the scenario has the same elements in the same order, and
  every per-leg list of the scenario has the same items.\<close>

theorem perm_leaves_scenario:
  "take (length h) (fst (snd (perm h scenario t c nc))) = h
   \<and> outer_at (fst (snd (perm h scenario t c nc))) scenario = outer_at h scenario
   \<and> (\<forall>xs. outer_at h scenario = Some xs \<longrightarrow>
         (\<forall>a\<in>set xs. a < length h \<longrightarrow>
            inner_at (fst (snd (perm h scenario t c nc))) a = inner_at h a))"
proof -
  let ?h' = "fst (snd (perm h scenario t c nc))"
  have p: "take (length h) ?h' = h" by (rule perm_prefix)
  have o: "outer_at ?h' scenario = outer_at h scenario"
  proof (cases "scenario < length h")
    case True
    then show ?thesis using take_prefix_same(1)[OF p, of scenario] by simp
  next
    case False
    then have "outer_at h scenario = None" by (simp add: outer_at_def)
    then show ?thesis by (simp add: perm_def)
  qed
  have i: "inner_at ?h' a = inner_at h a" if "a < length h" for a
    using take_prefix_same(2)[OF p, of a] that by simp
  from p o i show ?thesis by blast
qed

text \<open>The theorem on the scenario of two legs, where \<^verbatim>\<open>perm\<close> combines the two paths.\<close>

theorem perm_leaves_scenario_witness:
  "outer_at two_leg_heap 2 = Some [0, 1]
   \<and> perm two_leg_heap 2 2222 333 444 =
       (Inr 3,
        two_leg_heap @ [Outer [5], Inner [],
                        Inner [Item (Num 150) (Num 20) (Num 30) (5 # replicate 19 0) '', start-AA-BB'']],
        [])
   \<and> outer_at (fst (snd (perm two_leg_heap 2 2222 333 444))) 2 = Some [0, 1]
   \<and> inner_at (fst (snd (perm two_leg_heap 2 2222 333 444))) 0 = Some [leg_start_AA]
   \<and> inner_at (fst (snd (perm two_leg_heap 2 2222 333 444))) 1 = Some [leg_AA_BB]"
proof -
  have o: "outer_at two_leg_heap 2 = Some [0, 1]"
    by (simp add: outer_at_def two_leg_heap_def)
  have i: "inner_at two_leg_heap 0 = Some [leg_start_AA]" "inner_at two_leg_heap 1 = Some [leg_AA_BB]"
    by (simp_all add: inner_at_def two_leg_heap_def)
  have l: "length two_leg_heap = 3" by (simp add: two_leg_heap_def)
  from perm_leaves_scenario[of two_leg_heap 2 2222 333 444]
  have "outer_at (fst (snd (perm two_leg_heap 2 2222 333 444))) 2 = Some [0, 1]"
    and "inner_at (fst (snd (perm two_leg_heap 2 2222 333 444))) 0 = Some [leg_start_AA]"
    and "inner_at (fst (snd (perm two_leg_heap 2 2222 333 444))) 1 = Some [leg_AA_BB]"
    using o i l by auto
  with o two_leg_run show ?thesis by blast
qed

text \<open>Claim C2 fails on the code. \<^verbatim>\<open>perm\<close> combines the two legs into one path with 20 lb
  of consumables and the merged toolbox of one tool of 5 lb, and records 30 lb as its
  total weight: the two legs' total weights are added, so the tool carried on both legs
  is counted twice. Consumables plus the recorded tool weights are 25 lb.\<close>

theorem two_legs_weight_is_sum:
  "perm two_leg_heap 2 2222 333 444 =
     (Inr 3,
      two_leg_heap @ [Outer [5], Inner [],
                      Inner [Item (Num 150) (Num 20) (Num 30) (5 # replicate 19 0) '', start-AA-BB'']],
      [])
   \<and> (20::int) + sum_list (5 # replicate 19 0) = 25"
  using two_leg_run by (simp add: sum_list_replicate)

text \<open>The enumerator's loop \<^verbatim>\<open>range(0, 19)\<close> stops before the twentieth tool: node
  \<^verbatim>\<open>N2\<close> needs 7 lb of it, and the entry of the path to \<^verbatim>\<open>N2\<close> records 0.\<close>

lemma twentieth_tool_not_merged:
  "tools_at two_targets 2 ! 19 = 7
   \<and> print_all_paths two_targets 1 2 =
     Inr \<lparr>segment_paths = [(''N1:N2'', [''N1-N2''])],
          segment_pathdata = [(''N1-N2'',
            \<lparr>total_time = 100, total_consum = 10, total_weight = 10,
             new_tools = replicate 20 0\<rparr>)]\<rparr>"
proof -
  have "tools_at two_targets 2 ! 19 = 7" by code_simp
  with two_targets_run show ?thesis by simp
qed

end
